theory Spec2Isabelle
  imports Complex_Main "HOL-Library.Multiset" "HOL-Library.Log_Nat"
begin

section \<open>Data model of src/src/App.tsx\<close>

text \<open>
  A JavaScript \<open>number\<close> is an IEEE 754 double. A finite double is modelled as the
  real number it denotes, and every arithmetic operation of the source as the exact
  operation followed by \<open>fl\<close>, the rounding to the nearest number with a significand of
  53 bits, ties to the even significand. The exponent is not bounded: overflow to
  \<open>Infinity\<close> (beyond about \<open>1.8e308\<close>) and the subnormal range are outside the
  model, and so is the sign of zero.
\<close>

definition pow2 :: "int \<Rightarrow> real" where
  "pow2 k = (if 0 \<le> k then 2 ^ nat k else 1 / 2 ^ nat (- k))"

text \<open>The binary exponent \<open>e\<close> of \<open>x \<noteq> 0\<close>, with \<open>2^e \<le> |x| < 2^(e + 1)\<close>.\<close>

definition exponent :: "real \<Rightarrow> int" where
  "exponent x =
     (if 1 \<le> \<bar>x\<bar> then bitlen \<lfloor>\<bar>x\<bar>\<rfloor> - 1 else - bitlen (\<lceil>1 / \<bar>x\<bar>\<rceil> - 1))"

definition round_ties_even :: "real \<Rightarrow> int" where
  "round_ties_even x =
     (let f = \<lfloor>x\<rfloor>; d = x - of_int f
      in if d < 1 / 2 then f else if 1 / 2 < d then f + 1 else if even f then f else f + 1)"

definition fl :: "real \<Rightarrow> real" where
  "fl x = (if x = 0 then 0
           else let u = pow2 (exponent x - 52) in of_int (round_ties_even (x / u)) * u)"

text \<open>
  The operations of the source on doubles: \<open>a + b\<close>, \<open>a - b\<close>, \<open>a * b\<close>, \<open>a / b\<close>
  and \<open>Math.sqrt(a)\<close>. \<open>Math.pow(x, 2)\<close> is taken as the rounded product \<open>x * x\<close>.
\<close>

definition add_double :: "real \<Rightarrow> real \<Rightarrow> real" where
  "add_double a b = fl (a + b)"

definition sub_double :: "real \<Rightarrow> real \<Rightarrow> real" where
  "sub_double a b = fl (a - b)"

definition mul_double :: "real \<Rightarrow> real \<Rightarrow> real" where
  "mul_double a b = fl (a * b)"

definition div_double :: "real \<Rightarrow> real \<Rightarrow> real" where
  "div_double a b = fl (a / b)"

definition sqrt_double :: "real \<Rightarrow> real" where
  "sqrt_double a = fl (sqrt a)"

text \<open>
  A cell of the hierarchy is a \<open>number\<close>: \<open>updateNumber\<close> stores \<open>Number(value)\<close>,
  which is \<open>NaN\<close> for text that is no number, so a cell is a finite double or \<open>NaN\<close>.
\<close>

datatype jsnum = Num real | NaN

type_synonym EvaluationElement = "jsnum list"
type_synonym Item = "EvaluationElement list"

record Results =
  itemResults :: "real list list"
  totalResult :: "real list"

text \<open>
  The default name of a student is the template literal built from the id; a name typed
  by the user is any string.
\<close>

datatype student_name = Default_name int | Given_name string

record Student =
  sid :: int
  name :: student_name
  totalScore :: "real option"
  itemScores :: "real list"
  elementScores :: "real list list"

text \<open>
  \<open>error\<close> holds the message of \<open>validate\<close>: the template with the three 1-based
  numbers it prints. \<open>exn\<close> is an exception thrown by the JavaScript runtime.
\<close>

datatype error_message = InvalidNumber nat nat nat

datatype exn = TypeError

record app_state =
  items :: "Item list"
  results :: "Results option"
  error :: "error_message option"
  students :: "Student list"
  nextStudentId :: int
  storedItems :: "Item list option"

section \<open>Sum Generator: calculateCartesianSum\<close>

text \<open>
  \<open>[...new Set(sums)]\<close>: a Set keeps the first occurrence of each value, in insertion
  order.
\<close>

definition dedupe :: "real list \<Rightarrow> real list" where
  "dedupe xs = fold (\<lambda>x seen. if x \<in> set seen then seen else seen @ [x]) xs []"

text \<open>
  \<open>.sort((a, b) => b - a)\<close>: the sort of ECMAScript is stable, and the comparator puts
  \<open>a\<close> before \<open>b\<close> when \<open>b - a < 0\<close>. The rounded difference of two doubles has the
  sign of the exact difference, so this is the stable sort on the key \<open>- a\<close>.
\<close>

definition sortDescending :: "real list \<Rightarrow> real list" where
  "sortDescending xs = sort_key (\<lambda>a. - a) xs"

text \<open>
  The two nested \<open>for\<close> loops that fill \<open>newSums\<close> (the running list \<open>sums\<close> of
  the source is written \<open>sums'\<close>).
\<close>

definition newSums :: "real list \<Rightarrow> real list \<Rightarrow> real list" where
  "newSums sums' nums = concat (map (\<lambda>s. map (\<lambda>n. add_double s n) nums) sums')"

fun calculateCartesianSum :: "real list list \<Rightarrow> real list" where
  "calculateCartesianSum [] = []"
| "calculateCartesianSum (first # rest) =
     sortDescending (dedupe (fold (\<lambda>nums sums'. newSums sums' nums) rest first))"

text \<open>
  A choice of one value per group: \<open>picks groups c\<close> holds when \<open>c\<close> has one entry
  per group and each entry is drawn from its group. \<open>reachableSums\<close> holds the exact
  sums of these choices.
\<close>

definition picks :: "real list list \<Rightarrow> real list \<Rightarrow> bool" where
  "picks groups c = list_all2 (\<lambda>v g. v \<in> set g) c groups"

definition reachableSums :: "real list list \<Rightarrow> real set" where
  "reachableSums groups = {s. \<exists>c. picks groups c \<and> sum_list c = s}"

text \<open>
  The safe range. \<open>is_integer v\<close>: the number \<open>v\<close> is an integer. \<open>total_span groups\<close> adds
  up the largest absolute value of each group, a bound on every sum of picks and on
  every partial sum. Groups are \<open>safe_integers\<close> when all their values are integers and
  the total span is at most \<open>2^53\<close>, the range in which doubles add integers exactly.
\<close>

definition is_integer :: "real \<Rightarrow> bool" where
  "is_integer v \<longleftrightarrow> of_int \<lfloor>v\<rfloor> = v"

definition maxabs :: "real list \<Rightarrow> real" where
  "maxabs g = foldr (\<lambda>v m. max \<bar>v\<bar> m) g 0"

definition total_span :: "real list list \<Rightarrow> real" where
  "total_span groups = sum_list (map maxabs groups)"

definition safe_integers :: "real list list \<Rightarrow> bool" where
  "safe_integers groups \<longleftrightarrow>
     list_all (list_all is_integer) groups \<and> total_span groups \<le> 2 ^ 53"

definition positive :: "real list list \<Rightarrow> bool" where
  "positive groups \<longleftrightarrow> list_all (list_all (\<lambda>v. 0 < v)) groups"

section \<open>Decomposition Search: findItemCombinations and findElementCombinations\<close>

text \<open>
  The closure \<open>backtrack\<close> of \<open>findItemCombinations\<close> pushes onto the array
  \<open>combinations\<close> of the enclosing call; here it takes that array and returns it
  updated. \<open>current.push(score)\<close> before the recursive call and \<open>current.pop()\<close>
  after it make the call see \<open>current\<close> extended by \<open>score\<close>, and
  \<open>combinations.push([...current])\<close> stores a copy.
  The \<open>for ... of\<close> loop over \<open>itemResults[index]\<close> is the \<open>fold\<close>; the parameter
  \<open>itemResults\<close> is written \<open>itemResults'\<close>, the plain name being the field of \<open>Results\<close>.
  The search starts at index 0 and an index grows by one only below the length, so
  \<open>index > itemResults.length\<close> is never reached from \<open>findItemCombinations\<close>
  (there JavaScript would throw on iterating \<open>undefined\<close>); the last branch stands for it.
\<close>

function backtrack_item ::
  "real \<Rightarrow> real list list \<Rightarrow> nat \<Rightarrow> real \<Rightarrow> real list \<Rightarrow> real list list \<Rightarrow> real list list"
  where
  "backtrack_item targetSum itemResults' index currentSum current combinations =
     (if index = length itemResults' then
        (if currentSum = targetSum then combinations @ [current] else combinations)
      else if index < length itemResults' then
        fold (\<lambda>score combs.
                if add_double currentSum score \<le> targetSum
                then backtrack_item targetSum itemResults' (index + 1) (add_double currentSum score)
                       (current @ [score]) combs
                else combs)
             (itemResults' ! index) combinations
      else combinations)"
  by pat_completeness auto
termination
  by (relation "measure (\<lambda>(t, gs, i, cs, cur, combs). length gs - i)") auto

declare backtrack_item.simps [simp del]

definition findItemCombinations :: "real \<Rightarrow> real list list \<Rightarrow> real list list" where
  "findItemCombinations targetSum itemResults' = backtrack_item targetSum itemResults' 0 0 [] []"

text \<open>The closure \<open>backtrack\<close> of \<open>findElementCombinations\<close>, over \<open>elements\<close>.\<close>

function backtrack_element ::
  "real \<Rightarrow> real list list \<Rightarrow> nat \<Rightarrow> real \<Rightarrow> real list \<Rightarrow> real list list \<Rightarrow> real list list"
  where
  "backtrack_element targetSum elements index currentSum current combinations =
     (if index = length elements then
        (if currentSum = targetSum then combinations @ [current] else combinations)
      else if index < length elements then
        fold (\<lambda>score combs.
                if add_double currentSum score \<le> targetSum
                then backtrack_element targetSum elements (index + 1) (add_double currentSum score)
                       (current @ [score]) combs
                else combs)
             (elements ! index) combinations
      else combinations)"
  by pat_completeness auto
termination
  by (relation "measure (\<lambda>(t, gs, i, cs, cur, combs). length gs - i)") auto

declare backtrack_element.simps [simp del]

definition findElementCombinations :: "real \<Rightarrow> real list list \<Rightarrow> real list list" where
  "findElementCombinations targetSum elements = backtrack_element targetSum elements 0 0 [] []"

text \<open>
  The search written by recursion on the groups that remain, used to reason about
  \<open>backtrack_item\<close>: the decompositions found from a partial sum and a partial
  decomposition, in the order the loop finds them.
\<close>

fun search :: "real \<Rightarrow> real list list \<Rightarrow> real \<Rightarrow> real list \<Rightarrow> real list list" where
  "search targetSum [] currentSum current = (if currentSum = targetSum then [current] else [])"
| "search targetSum (g # gs) currentSum current =
     concat (map (\<lambda>score. if add_double currentSum score \<le> targetSum
                           then search targetSum gs (add_double currentSum score)
                                  (current @ [score])
                           else []) g)"

section \<open>Balance Selector: calculateStdDev and selectBalancedCombination\<close>

text \<open>
  The standard deviation as the source computes it, every step rounded.
  \<open>reduce((a, b) => a + b, 0)\<close> is the left fold.
\<close>

definition calculateStdDev :: "real list \<Rightarrow> real" where
  "calculateStdDev arr =
     (if length arr = 0 then 0
      else
        let mean = div_double (foldl (\<lambda>a b. add_double a b) 0 arr) (real (length arr));
            squaredDiffs = map (\<lambda>x. mul_double (sub_double x mean) (sub_double x mean)) arr
        in sqrt_double
             (div_double (foldl (\<lambda>a b. add_double a b) 0 squaredDiffs) (real (length arr))))"

text \<open>
  The population standard deviation of the values themselves, in exact arithmetic: the
  square root of the mean of the squared deviations from the arithmetic mean.
\<close>

definition populationStdDev :: "real list \<Rightarrow> real" where
  "populationStdDev arr =
     (if arr = [] then 0
      else sqrt (sum_list (map (\<lambda>x. (x - sum_list arr / real (length arr)) ^ 2) arr)
                 / real (length arr)))"

text \<open>
  \<open>Math.random()\<close> is the parameter \<open>rnd\<close>, a double in \<open>[0, 1)\<close>: the largest one is
  \<open>1 - 2^-53\<close>. The sort with the comparator \<open>a.stdDev - b.stdDev\<close> is the stable sort
  on the key \<open>stdDev\<close>. The literal \<open>0.3\<close> is the double nearest to \<open>3/10\<close>. Reading
  \<open>.combo\<close> of an entry that is not there throws a TypeError.
\<close>

definition selectBalancedCombination :: "real \<Rightarrow> real list list \<Rightarrow> exn + real list" where
  "selectBalancedCombination rnd combinations =
     (if length combinations = 0 then Inr []
      else if length combinations = 1 then Inr (combinations ! 0)
      else
        let withStdDev = map (\<lambda>combo. (combo, calculateStdDev combo)) combinations;
            sorted' = sort_key snd withStdDev;
            topCount = max 1 (nat \<lceil>mul_double (real (length sorted')) (fl (3 / 10))\<rceil>);
            topCombinations = take topCount sorted';
            randomIndex = \<lfloor>mul_double rnd (real (length topCombinations))\<rfloor>
        in if 0 \<le> randomIndex \<and> randomIndex < int (length topCombinations)
           then Inr (fst (topCombinations ! nat randomIndex))
           else Inl TypeError)"

text \<open>
  A ranking by a key: \<open>ranked\<close> holds the candidates in ascending order of the key,
  candidates with equal keys in their original relative order. \<open>topFraction n\<close> is
  \<open>max(1, ceil(0.3 * n))\<close> in exact arithmetic.
\<close>

definition rankedBy :: "(real list \<Rightarrow> real) \<Rightarrow> real list list \<Rightarrow> real list list \<Rightarrow> bool" where
  "rankedBy key combinations ranked \<longleftrightarrow>
     mset ranked = mset combinations
     \<and> sorted (map key ranked)
     \<and> (\<forall>d. filter (\<lambda>c. key c = d) ranked = filter (\<lambda>c. key c = d) combinations)"

definition topFraction :: "nat \<Rightarrow> nat" where
  "topFraction n = max 1 (nat \<lceil>real n * (3 / 10)\<rceil>)"

text \<open>The argument of \<open>Math.sqrt\<close> in \<open>calculateStdDev\<close>, for a non-empty array.\<close>

definition roundedVariance :: "real list \<Rightarrow> real" where
  "roundedVariance arr =
     (let mean = div_double (foldl (\<lambda>a b. add_double a b) 0 arr) (real (length arr));
          squaredDiffs = map (\<lambda>x. mul_double (sub_double x mean) (sub_double x mean)) arr
      in div_double (foldl (\<lambda>a b. add_double a b) 0 squaredDiffs) (real (length arr)))"

section \<open>Validation and the Hierarchy Evaluator\<close>

text \<open>\<open>num <= 0 || isNaN(num)\<close>\<close>

fun invalid :: "jsnum \<Rightarrow> bool" where
  "invalid NaN = True"
| "invalid (Num n) = (n \<le> 0)"

text \<open>
  The three nested loops of \<open>validate\<close>, innermost first. The result \<open>Some msg\<close> is
  \<open>setError(msg); return false\<close>, and \<open>None\<close> is \<open>return true\<close>.
\<close>

fun validate_numbers :: "nat \<Rightarrow> nat \<Rightarrow> nat \<Rightarrow> jsnum list \<Rightarrow> error_message option" where
  "validate_numbers i j k [] = None"
| "validate_numbers i j k (n # rest) =
     (if invalid n then Some (InvalidNumber (i + 1) (j + 1) (k + 1))
      else validate_numbers i j (k + 1) rest)"

fun validate_elements :: "nat \<Rightarrow> nat \<Rightarrow> jsnum list list \<Rightarrow> error_message option" where
  "validate_elements i j [] = None"
| "validate_elements i j (e # rest) =
     (case validate_numbers i j 0 e of
        Some msg \<Rightarrow> Some msg
      | None \<Rightarrow> validate_elements i (j + 1) rest)"

fun validate_items :: "nat \<Rightarrow> Item list \<Rightarrow> error_message option" where
  "validate_items i [] = None"
| "validate_items i (item # rest) =
     (case validate_elements i 0 item of
        Some msg \<Rightarrow> Some msg
      | None \<Rightarrow> validate_items (i + 1) rest)"

definition validate :: "Item list \<Rightarrow> error_message option" where
  "validate items' = validate_items 0 items'"

text \<open>
  The candidates of an evaluation element that are numbers. After \<open>validate\<close> no cell
  is \<open>NaN\<close> and nothing is dropped; in the search a \<open>NaN\<close> candidate is skipped, since
  \<open>currentSum + NaN <= targetSum\<close> is false.
\<close>

fun numbers :: "jsnum list \<Rightarrow> real list" where
  "numbers [] = []"
| "numbers (Num n # rest) = n # numbers rest"
| "numbers (NaN # rest) = numbers rest"

text \<open>The two results that \<open>calculateCombinations\<close> computes.\<close>

definition computeResults :: "Item list \<Rightarrow> Results" where
  "computeResults items' =
     (let itemResults' = map (\<lambda>item. calculateCartesianSum (map numbers item)) items';
          totalResult' = calculateCartesianSum itemResults'
      in \<lparr>itemResults = itemResults', totalResult = totalResult'\<rparr>)"

definition calculateCombinations :: "app_state \<Rightarrow> app_state" where
  "calculateCombinations s =
     (case validate (items s) of
        Some msg \<Rightarrow> s\<lparr>error := Some msg\<rparr>
      | None \<Rightarrow>
          s\<lparr>storedItems := Some (items s),
            students := [],
            nextStudentId := 1,
            results := Some (computeResults (items s)),
            error := None\<rparr>)"

section \<open>Student records\<close>

definition addStudent :: "app_state \<Rightarrow> app_state" where
  "addStudent s =
     s\<lparr>students := students s @
          [\<lparr>sid = nextStudentId s, name = Default_name (nextStudentId s),
            totalScore = None, itemScores = [], elementScores = []\<rparr>],
       nextStudentId := nextStudentId s + 1\<rparr>"

text \<open>
  The loop of \<open>updateStudentTotalScore\<close> over the items. Each call of
  \<open>selectBalancedCombination\<close> has a draw of its own: \<open>rnd 0\<close> at the item level,
  \<open>rnd (i + 1)\<close> for item \<open>i\<close>. Where \<open>selectedItemScores[i]\<close> is \<open>undefined\<close>,
  every comparison of the search with the target is false and it finds nothing.
\<close>

function elementLoop ::
  "(nat \<Rightarrow> real) \<Rightarrow> Item list \<Rightarrow> real list \<Rightarrow> nat \<Rightarrow> real list list \<Rightarrow> exn + real list list"
  where
  "elementLoop rnd items' selectedItemScores i elementScores' =
     (if i < length items' then
        let elementCombinations =
              (if i < length selectedItemScores
               then findElementCombinations (selectedItemScores ! i) (map numbers (items' ! i))
               else [])
        in case selectBalancedCombination (rnd (i + 1)) elementCombinations of
             Inl e \<Rightarrow> Inl e
           | Inr selectedElements \<Rightarrow>
               elementLoop rnd items' selectedItemScores (i + 1)
                 (elementScores' @ [selectedElements])
      else Inr elementScores')"
  by pat_completeness auto
termination
  by (relation "measure (\<lambda>(rnd, its, sel, i, es). length its - i)") auto

declare elementLoop.simps [simp del]

definition updateStudentTotalScore ::
  "(nat \<Rightarrow> real) \<Rightarrow> int \<Rightarrow> real option \<Rightarrow> app_state \<Rightarrow> exn + app_state" where
  "updateStudentTotalScore rnd id' score s =
     (case (score, results s) of
        (Some score', Some results') \<Rightarrow>
          let itemCombinations = findItemCombinations score' (itemResults results') in
          if length itemCombinations = 0 then Inr s
          else
            (case selectBalancedCombination (rnd 0) itemCombinations of
               Inl e \<Rightarrow> Inl e
             | Inr selectedItemScores \<Rightarrow>
                 (case elementLoop rnd (items s) selectedItemScores 0 [] of
                    Inl e \<Rightarrow> Inl e
                  | Inr elementScores' \<Rightarrow>
                      Inr (s\<lparr>students :=
                             map (\<lambda>st. if sid st = id'
                                        then st\<lparr>totalScore := Some score',
                                               itemScores := selectedItemScores,
                                               elementScores := elementScores'\<rparr>
                                        else st)
                                 (students s)\<rparr>)))
      | _ \<Rightarrow>
          Inr (s\<lparr>students :=
                 map (\<lambda>st. if sid st = id'
                            then st\<lparr>totalScore := None, itemScores := [], elementScores := []\<rparr>
                            else st)
                     (students s)\<rparr>))"

text \<open>The operations on student records that the page offers.\<close>

datatype student_op =
  AddStudent
| UpdateStudentTotalScore int "real option"
| CalculateCombinations

fun apply_student_op :: "(nat \<Rightarrow> real) \<Rightarrow> student_op \<Rightarrow> app_state \<Rightarrow> exn + app_state" where
  "apply_student_op rnd AddStudent s = Inr (addStudent s)"
| "apply_student_op rnd (UpdateStudentTotalScore id' score) s =
     updateStudentTotalScore rnd id' score s"
| "apply_student_op rnd CalculateCombinations s = Inr (calculateCombinations s)"

text \<open>
  The invariant of a student record, for the hierarchy \<open>items'\<close>: with a total score,
  the item scores sum to it and, for every item \<open>i\<close>, the element scores of item \<open>i\<close>
  sum to the item score \<open>i\<close>; without one, both sequences are empty. The sums are the
  exact ones.
\<close>

definition student_invariant :: "Item list \<Rightarrow> Student \<Rightarrow> bool" where
  "student_invariant items' st =
     (case totalScore st of
        None \<Rightarrow> itemScores st = [] \<and> elementScores st = []
      | Some score \<Rightarrow>
          sum_list (itemScores st) = score
          \<and> length items' \<le> length (itemScores st)
          \<and> length items' \<le> length (elementScores st)
          \<and> (\<forall>i < length items'. sum_list (elementScores st ! i) = itemScores st ! i))"

text \<open>The results, when there are any, are the ones computed from the validated hierarchy.\<close>

definition results_current :: "app_state \<Rightarrow> bool" where
  "results_current s =
     (case results s of
        None \<Rightarrow> True
      | Some results' \<Rightarrow> validate (items s) = None \<and> results' = computeResults (items s))"

section \<open>Structural edits of the hierarchy\<close>

definition clearResults :: "app_state \<Rightarrow> app_state" where
  "clearResults s = s\<lparr>results := None, error := None\<rparr>"

text \<open>\<open>xs.filter((_, i) => i !== index)\<close>\<close>

definition filter_index :: "nat \<Rightarrow> 'a list \<Rightarrow> 'a list" where
  "filter_index index xs = map snd (filter (\<lambda>(i, x). i \<noteq> index) (zip [0..<length xs] xs))"

definition addItem :: "app_state \<Rightarrow> app_state" where
  "addItem s = clearResults (s\<lparr>items := items s @ [[[Num 0]]]\<rparr>)"

definition removeItem :: "nat \<Rightarrow> app_state \<Rightarrow> app_state" where
  "removeItem itemIndex s =
     (if length (items s) \<le> 1 then s
      else clearResults (s\<lparr>items := filter_index itemIndex (items s)\<rparr>))"

text \<open>
  An index past the end reads \<open>undefined\<close>; spreading it, or reading its \<open>length\<close>,
  throws a TypeError before any state is set.
\<close>

definition addEvaluationElement :: "nat \<Rightarrow> app_state \<Rightarrow> exn + app_state" where
  "addEvaluationElement itemIndex s =
     (if itemIndex < length (items s)
      then Inr (clearResults
                  (s\<lparr>items := (items s)[itemIndex := items s ! itemIndex @ [[Num 0]]]\<rparr>))
      else Inl TypeError)"

definition removeEvaluationElement :: "nat \<Rightarrow> nat \<Rightarrow> app_state \<Rightarrow> exn + app_state" where
  "removeEvaluationElement itemIndex elementIndex s =
     (if itemIndex < length (items s) then
        (if length (items s ! itemIndex) \<le> 1 then Inr s
         else Inr (clearResults
                     (s\<lparr>items := (items s)[itemIndex :=
                                      filter_index elementIndex (items s ! itemIndex)]\<rparr>)))
      else Inl TypeError)"

text \<open>
  The value \<open>addNumber\<close> appends: the next term of the arithmetic progression of the
  last two cells when both are positive, otherwise 0.
\<close>

definition newValue :: "jsnum list \<Rightarrow> jsnum" where
  "newValue currentNumbers =
     (if 2 \<le> length currentNumbers then
        (case (currentNumbers ! (length currentNumbers - 1),
               currentNumbers ! (length currentNumbers - 2)) of
           (Num last', Num secondLast) \<Rightarrow>
             (if 0 < last' \<and> 0 < secondLast
              then Num (add_double last' (sub_double last' secondLast)) else Num 0)
         | _ \<Rightarrow> Num 0)
      else Num 0)"

definition addNumber :: "nat \<Rightarrow> nat \<Rightarrow> app_state \<Rightarrow> exn + app_state" where
  "addNumber itemIndex elementIndex s =
     (if itemIndex < length (items s) \<and> elementIndex < length (items s ! itemIndex) then
        let currentNumbers = items s ! itemIndex ! elementIndex
        in Inr (clearResults
                  (s\<lparr>items := (items s)[itemIndex :=
                       (items s ! itemIndex)[elementIndex :=
                          currentNumbers @ [newValue currentNumbers]]]\<rparr>))
      else Inl TypeError)"

definition removeNumber :: "nat \<Rightarrow> nat \<Rightarrow> nat \<Rightarrow> app_state \<Rightarrow> exn + app_state" where
  "removeNumber itemIndex elementIndex numIndex s =
     (if itemIndex < length (items s) \<and> elementIndex < length (items s ! itemIndex) then
        (if length (items s ! itemIndex ! elementIndex) \<le> 1 then Inr s
         else Inr (clearResults
                     (s\<lparr>items := (items s)[itemIndex :=
                          (items s ! itemIndex)[elementIndex :=
                             filter_index numIndex (items s ! itemIndex ! elementIndex)]]\<rparr>)))
      else Inl TypeError)"

text \<open>The structural edits: adding or removing an item, an element or a value.\<close>

datatype edit =
  AddItem
| RemoveItem nat
| AddEvaluationElement nat
| RemoveEvaluationElement nat nat
| AddNumber nat nat
| RemoveNumber nat nat nat

fun apply_edit :: "edit \<Rightarrow> app_state \<Rightarrow> exn + app_state" where
  "apply_edit AddItem s = Inr (addItem s)"
| "apply_edit (RemoveItem i) s = Inr (removeItem i s)"
| "apply_edit (AddEvaluationElement i) s = addEvaluationElement i s"
| "apply_edit (RemoveEvaluationElement i j) s = removeEvaluationElement i j s"
| "apply_edit (AddNumber i j) s = addNumber i j s"
| "apply_edit (RemoveNumber i j k) s = removeNumber i j k s"

section \<open>Positions in the hierarchy and example states\<close>

text \<open>
  \<open>invalid_at items' i j k\<close>: value \<open>k\<close> of element \<open>j\<close> of item \<open>i\<close> (0-based)
  exists and is rejected by the check of \<open>validate\<close>. \<open>precedes\<close> is the order in which
  the three nested loops visit the positions.
\<close>

definition invalid_at :: "Item list \<Rightarrow> nat \<Rightarrow> nat \<Rightarrow> nat \<Rightarrow> bool" where
  "invalid_at items' i j k \<longleftrightarrow>
     i < length items' \<and> j < length (items' ! i) \<and> k < length (items' ! i ! j)
     \<and> invalid (items' ! i ! j ! k)"

definition precedes :: "nat \<times> nat \<times> nat \<Rightarrow> nat \<times> nat \<times> nat \<Rightarrow> bool" where
  "precedes p q =
     (case (p, q) of
        ((i', j', k'), (i, j, k)) \<Rightarrow> i' < i \<or> (i' = i \<and> (j' < j \<or> (j' = j \<and> k' < k))))"

text \<open>Two items with one element \<open>[1, 2]\<close> each, and the page after loading them.\<close>

definition two_items :: "Item list" where
  "two_items = [[[Num 1, Num 2]], [[Num 1, Num 2]]]"

text \<open>A hierarchy with the value 0 at item 2, element 1, position 3.\<close>

definition zero_items :: "Item list" where
  "zero_items = [[[Num 1, Num 2]], [[Num 5, Num 3, Num 0], [NaN]]]"

definition initial_state :: "Item list \<Rightarrow> app_state" where
  "initial_state items' =
     \<lparr>items = items', results = None, error = None, students = [], nextStudentId = 1,
      storedItems = None\<rparr>"

text \<open>
  The page after computing the results of \<open>two_items\<close>, adding a student and giving
  the student the total 3.
\<close>

definition assigned_state :: app_state where
  "assigned_state =
     \<lparr>items = two_items,
      results = Some \<lparr>itemResults = [[2, 1], [2, 1]], totalResult = [4, 3, 2]\<rparr>,
      error = None,
      students = [\<lparr>sid = 1, name = Default_name 1, totalScore = Some 3,
                   itemScores = [2, 1], elementScores = [[2], [1]]\<rparr>],
      nextStudentId = 2,
      storedItems = Some two_items\<rparr>"

text \<open>
  A removal is refused, and nothing is set, when only one item, element or value is left.
\<close>

fun refused :: "edit \<Rightarrow> app_state \<Rightarrow> bool" where
  "refused AddItem s = False"
| "refused (RemoveItem i) s = (length (items s) \<le> 1)"
| "refused (AddEvaluationElement i) s = False"
| "refused (RemoveEvaluationElement i j) s = (length (items s ! i) \<le> 1)"
| "refused (AddNumber i j) s = False"
| "refused (RemoveNumber i j k) s = (length (items s ! i ! j) \<le> 1)"

text \<open>
  The value groups of a hierarchy, all elements of all items in order, and the safe
  range of a hierarchy.
\<close>

definition all_elements :: "Item list \<Rightarrow> real list list" where
  "all_elements items' = concat (map (map numbers) items')"

definition safe_hierarchy :: "Item list \<Rightarrow> bool" where
  "safe_hierarchy items' \<longleftrightarrow> validate items' = None \<and> safe_integers (all_elements items')"

text \<open>
  Two items with the single values \<open>2^53\<close> and 1, the page after computing their
  results and adding a student, and the page after giving the student the total
  \<open>2^53\<close>.
\<close>

definition big_items :: "Item list" where
  "big_items = [[[Num 9007199254740992]], [[Num 1]]]"

definition big_state :: app_state where
  "big_state =
     \<lparr>items = big_items,
      results = Some \<lparr>itemResults = [[9007199254740992], [1]],
                      totalResult = [9007199254740992]\<rparr>,
      error = None,
      students = [\<lparr>sid = 1, name = Default_name 1, totalScore = None,
                   itemScores = [], elementScores = []\<rparr>],
      nextStudentId = 2,
      storedItems = Some big_items\<rparr>"

definition big_assigned_state :: app_state where
  "big_assigned_state =
     big_state\<lparr>students :=
       [\<lparr>sid = 1, name = Default_name 1, totalScore = Some 9007199254740992,
         itemScores = [9007199254740992, 1], elementScores = [[9007199254740992], [1]]\<rparr>]\<rparr>"

section \<open>Rounding to doubles\<close>

lemma pow2_powi: "pow2 k = 2 powi k"
  by (cases "0 \<le> k") (simp_all add: pow2_def power_int_def inverse_eq_divide power_one_over)

lemma pow2_pos [simp]: "0 < pow2 k"
  by (simp add: pow2_powi)

lemma pow2_nonneg [simp]: "0 \<le> pow2 k"
  by (simp add: pow2_powi)

lemma pow2_add: "pow2 (a + b) = pow2 a * pow2 b"
  by (simp add: pow2_powi power_int_add)

lemma pow2_mono: "a \<le> b \<Longrightarrow> pow2 a \<le> pow2 b"
  by (simp add: pow2_powi power_int_increasing)

lemma pow2_strict_mono: "a < b \<Longrightarrow> pow2 a < pow2 b"
  by (simp add: pow2_powi power_int_strict_increasing)

lemma pow2_nat: "0 \<le> k \<Longrightarrow> pow2 k = of_int (2 ^ nat k)"
  by (simp add: pow2_def)

lemma pow2_Suc: "pow2 (k + 1) = 2 * pow2 k"
proof -
  have "pow2 1 = 2" by (simp add: pow2_def)
  then show ?thesis using pow2_add [of k 1] by simp
qed

lemma exponent_bounds:
  assumes "x \<noteq> 0"
  shows "pow2 (exponent x) \<le> \<bar>x\<bar> \<and> \<bar>x\<bar> < pow2 (exponent x + 1)"
proof (cases "1 \<le> \<bar>x\<bar>")
  case True
  define m where "m = \<lfloor>\<bar>x\<bar>\<rfloor>"
  have m: "0 < m" using True by (simp add: m_def)
  have e: "exponent x = bitlen m - 1"
    using True by (simp add: exponent_def m_def)
  have bl: "1 \<le> bitlen m"
    using m by (simp add: bitlen_ge_iff_power)
  from bitlen_bounds [OF m] have b: "2 ^ nat (bitlen m - 1) \<le> m" "m < 2 ^ nat (bitlen m)"
    by simp_all
  have "real_of_int (2 ^ nat (bitlen m - 1)) \<le> of_int m"
    using b(1) by (simp only: of_int_le_iff)
  also have "of_int m \<le> \<bar>x\<bar>" by (simp add: m_def)
  finally have lower: "pow2 (exponent x) \<le> \<bar>x\<bar>"
    using bl by (simp add: e pow2_nat)
  have "\<bar>x\<bar> < of_int (2 ^ nat (bitlen m))"
    using b(2) unfolding m_def by (simp only: floor_less_iff)
  then have upper: "\<bar>x\<bar> < pow2 (exponent x + 1)"
    using bl by (simp add: e pow2_nat)
  from lower upper show ?thesis by simp
next
  case False
  define y where "y = 1 / \<bar>x\<bar>"
  define k where "k = \<lceil>y\<rceil> - 1"
  have xpos: "0 < \<bar>x\<bar>" using assms by simp
  have y1: "1 < y" using False xpos by (simp add: y_def)
  then have "1 < \<lceil>y\<rceil>" by (simp add: less_ceiling_iff)
  then have k: "0 < k" by (simp add: k_def)
  have e: "exponent x = - bitlen k"
    using False by (simp add: exponent_def k_def y_def)
  have bl: "1 \<le> bitlen k"
    using k by (simp add: bitlen_ge_iff_power)
  from bitlen_bounds [OF k] have b: "2 ^ nat (bitlen k - 1) \<le> k" "k < 2 ^ nat (bitlen k)"
    by simp_all
  have ky: "of_int k < y" "y \<le> of_int k + 1"
    using ceiling_correct [of y] by (simp_all add: k_def)
  have "k + 1 \<le> 2 ^ nat (bitlen k)" using b(2) by simp
  then have "real_of_int (k + 1) \<le> of_int (2 ^ nat (bitlen k))"
    by (simp only: of_int_le_iff)
  with ky(2) have yu: "y \<le> pow2 (bitlen k)"
    using bl by (simp add: pow2_nat)
  have "pow2 (bitlen k - 1) = real_of_int (2 ^ nat (bitlen k - 1))"
    using bl by (simp add: pow2_nat)
  also have "\<dots> \<le> of_int k"
    using b(1) by (simp only: of_int_le_iff)
  also have "\<dots> < y" by (rule ky(1))
  finally have yl: "pow2 (bitlen k - 1) < y" .
  have inv: "pow2 (- j) = 1 / pow2 j" for j
    by (simp add: pow2_powi power_int_minus_divide)
  have x: "\<bar>x\<bar> = 1 / y" by (simp add: y_def)
  have "1 / pow2 (bitlen k) \<le> 1 / y"
    using yu y1 by (intro divide_left_mono) simp_all
  then have lower: "pow2 (exponent x) \<le> \<bar>x\<bar>"
    by (simp add: e inv x)
  have "1 / y < 1 / pow2 (bitlen k - 1)"
    using yl y1 by (intro divide_strict_left_mono) (simp_all add: zero_less_mult_iff)
  moreover have "pow2 (exponent x + 1) = 1 / pow2 (bitlen k - 1)"
    using inv [of "bitlen k - 1"] by (simp add: e)
  ultimately have upper: "\<bar>x\<bar> < pow2 (exponent x + 1)"
    by (simp add: x)
  from lower upper show ?thesis by simp
qed

lemma exponent_eqI:
  assumes "pow2 e \<le> \<bar>x\<bar>" "\<bar>x\<bar> < pow2 (e + 1)"
  shows "exponent x = e"
proof -
  have "0 < \<bar>x\<bar>" using assms(1) pow2_pos [of e] by linarith
  then have "x \<noteq> 0" by simp
  from exponent_bounds [OF this]
  have b: "pow2 (exponent x) \<le> \<bar>x\<bar>" "\<bar>x\<bar> < pow2 (exponent x + 1)" by simp_all
  have "\<not> exponent x < e"
  proof
    assume "exponent x < e"
    then have "pow2 (exponent x + 1) \<le> pow2 e" by (intro pow2_mono) simp
    with b(2) assms(1) show False by simp
  qed
  moreover have "\<not> e < exponent x"
  proof
    assume "e < exponent x"
    then have "pow2 (e + 1) \<le> pow2 (exponent x)" by (intro pow2_mono) simp
    with b(1) assms(2) show False by simp
  qed
  ultimately show ?thesis by simp
qed

lemma round_ties_even_of_int [simp]: "round_ties_even (of_int k) = k"
  by (simp add: round_ties_even_def)

lemma round_ties_even_near:
  "\<bar>of_int (round_ties_even z) - z\<bar> \<le> 1 / 2"
proof -
  define d where "d = z - of_int \<lfloor>z\<rfloor>"
  have d: "0 \<le> d" "d < 1" unfolding d_def by linarith+
  have z: "z = of_int \<lfloor>z\<rfloor> + d" by (simp add: d_def)
  have r: "round_ties_even z =
      (if d < 1 / 2 then \<lfloor>z\<rfloor> else if 1 / 2 < d then \<lfloor>z\<rfloor> + 1
       else if even \<lfloor>z\<rfloor> then \<lfloor>z\<rfloor> else \<lfloor>z\<rfloor> + 1)"
    by (simp add: round_ties_even_def Let_def d_def)
  have "\<bar>of_int (round_ties_even z) - (of_int \<lfloor>z\<rfloor> + d)\<bar> \<le> 1 / 2"
    unfolding r using d by (auto simp: abs_if)
  then show ?thesis using z by simp
qed

lemma round_ties_even_le:
  assumes "z \<le> of_int N"
  shows "round_ties_even z \<le> N"
proof (rule ccontr)
  assume "\<not> round_ties_even z \<le> N"
  then have "N + 1 \<le> round_ties_even z" by simp
  then have "real_of_int (N + 1) \<le> of_int (round_ties_even z)"
    by (simp only: of_int_le_iff)
  with assms round_ties_even_near [of z] show False
    by (simp add: abs_if split: if_splits)
qed

lemma round_ties_even_ge:
  assumes "of_int N \<le> z"
  shows "N \<le> round_ties_even z"
proof (rule ccontr)
  assume "\<not> N \<le> round_ties_even z"
  then have "round_ties_even z \<le> N - 1" by simp
  then have "real_of_int (round_ties_even z) \<le> of_int (N - 1)"
    by (simp only: of_int_le_iff)
  with assms round_ties_even_near [of z] show False
    by (simp add: abs_if split: if_splits)
qed

lemma round_ties_even_less:
  assumes "z < of_int N - 1 / 2"
  shows "round_ties_even z < N"
proof (rule ccontr)
  assume "\<not> round_ties_even z < N"
  then have "N \<le> round_ties_even z" by simp
  then have "real_of_int N \<le> of_int (round_ties_even z)"
    by (simp only: of_int_le_iff)
  with assms round_ties_even_near [of z] show False
    by (simp add: abs_if split: if_splits)
qed

lemma round_ties_even_greater:
  assumes "of_int N + 1 / 2 < z"
  shows "N < round_ties_even z"
proof (rule ccontr)
  assume "\<not> N < round_ties_even z"
  then have "round_ties_even z \<le> N" by simp
  then have "real_of_int (round_ties_even z) \<le> of_int N"
    by (simp only: of_int_le_iff)
  with assms round_ties_even_near [of z] show False
    by (simp add: abs_if split: if_splits)
qed

lemma round_ties_even_eqI:
  assumes "\<bar>z - of_int k\<bar> < 1 / 2"
  shows "round_ties_even z = k"
proof -
  have "k - 1 < round_ties_even z"
    using assms by (intro round_ties_even_greater) (simp add: abs_if split: if_splits)
  moreover have "round_ties_even z < k + 1"
    using assms by (intro round_ties_even_less) (simp add: abs_if split: if_splits)
  ultimately show ?thesis by simp
qed

lemma fl_unfold:
  assumes "pow2 e \<le> \<bar>x\<bar>" "\<bar>x\<bar> < pow2 (e + 1)"
  shows "fl x = of_int (round_ties_even (x / pow2 (e - 52))) * pow2 (e - 52)"
proof -
  have "0 < \<bar>x\<bar>" using assms(1) pow2_pos [of e] by linarith
  then have "x \<noteq> 0" by simp
  then show ?thesis
    by (simp add: fl_def Let_def exponent_eqI [OF assms])
qed

lemma fl_eqI:
  assumes "pow2 e \<le> \<bar>x\<bar>" "\<bar>x\<bar> < pow2 (e + 1)"
    and "\<bar>x / pow2 (e - 52) - of_int k\<bar> < 1 / 2"
  shows "fl x = of_int k * pow2 (e - 52)"
  by (simp add: fl_unfold [OF assms(1,2)] round_ties_even_eqI [OF assms(3)])

lemma fl_nonneg:
  assumes "0 \<le> x"
  shows "0 \<le> fl x"
proof (cases "x = 0")
  case True
  then show ?thesis by (simp add: fl_def)
next
  case False
  have "real_of_int 0 \<le> x / pow2 (exponent x - 52)"
    using assms by (simp add: zero_le_divide_iff)
  then have "0 \<le> round_ties_even (x / pow2 (exponent x - 52))"
    by (rule round_ties_even_ge)
  then show ?thesis
    using False by (simp add: fl_def Let_def)
qed

lemma fl_two_53_plus_1: "fl 9007199254740993 = 9007199254740992"
  by code_simp

lemma fl_two_53: "fl 9007199254740992 = 9007199254740992"
  by code_simp

lemma fl_minus_two_53: "fl (- 9007199254740992) = - 9007199254740992"
  by code_simp

lemma fl_of_int:
  assumes "\<bar>n\<bar> \<le> 2 ^ 53"
  shows "fl (of_int n) = of_int n"
proof (cases "n = 0")
  case True
  then show ?thesis by (simp add: fl_def)
next
  case False
  define e where "e = bitlen \<bar>n\<bar> - 1"
  have pos: "0 < \<bar>n\<bar>" using False by simp
  from bitlen_bounds [OF pos] have b: "2 ^ nat e \<le> \<bar>n\<bar>" "\<bar>n\<bar> < 2 ^ nat (e + 1)"
    by (simp_all add: e_def)
  have "1 \<le> bitlen \<bar>n\<bar>"
    using pos by (simp add: bitlen_ge_iff_power)
  then have e0: "0 \<le> e"
    by (simp add: e_def)
  have a1: "\<bar>real_of_int n\<bar> = of_int \<bar>n\<bar>" by simp
  have "1 \<le> \<bar>n\<bar>" using pos by simp
  then have a2: "(1::real) \<le> of_int \<bar>n\<bar>" by (simp only: of_int_1_le_iff)
  have ex: "exponent (of_int n) = e"
    unfolding exponent_def a1 e_def by (simp only: a2 if_True floor_of_int)
  have le: "(2::int) ^ nat e \<le> 2 ^ 53" using b(1) assms by linarith
  have "nat e \<le> 53"
    by (rule power_le_imp_le_exp [OF _ le]) simp
  then have e53: "e \<le> 53"
    by simp
  show ?thesis
  proof (cases "e \<le> 52")
    case True
    then have u: "pow2 (e - 52) = 1 / 2 ^ nat (52 - e)"
      by (cases "e = 52") (simp_all add: pow2_def)
    have "of_int n / pow2 (e - 52) = (of_int (n * 2 ^ nat (52 - e)) :: real)"
      by (simp add: u)
    then have "round_ties_even (of_int n / pow2 (e - 52)) = n * 2 ^ nat (52 - e)"
      by (simp only: round_ties_even_of_int)
    then show ?thesis
      using False by (simp add: fl_def ex Let_def u)
  next
    case False
    with e53 have e: "e = 53" by simp
    with b(1) assms have abs: "\<bar>n\<bar> = 2 ^ 53" by simp
    then consider "n = 2 ^ 53" | "n = - (2 ^ 53)" by (auto simp: abs_if split: if_splits)
    then show ?thesis
    proof cases
      case 1
      then show ?thesis by (simp add: fl_two_53)
    next
      case 2
      then show ?thesis by (simp add: fl_minus_two_53)
    qed
  qed
qed


lemma pow2_less_imp: "pow2 a < pow2 b \<Longrightarrow> a < b"
  using pow2_mono [of b a] by (cases "a < b") auto

lemma pow2_neg: "e \<le> 52 \<Longrightarrow> pow2 (e - 52) = 1 / of_int (2 ^ nat (52 - e))"
proof -
  assume "e \<le> 52"
  then have "pow2 (52 - e) = of_int (2 ^ nat (52 - e))" by (simp add: pow2_nat)
  moreover have "pow2 (e - 52) * pow2 (52 - e) = 1"
    using pow2_add [of "e - 52" "52 - e"] by (simp add: pow2_def)
  ultimately show ?thesis
    by (simp add: field_simps)
qed

lemma fl_less_nat:
  assumes "0 \<le> x" "x \<le> real n - real n / 2 ^ 53" "0 < n" "n \<le> 2 ^ 53"
  shows "fl x < real n"
proof (cases "x = 0")
  case True
  then show ?thesis using assms(3) by (simp add: fl_def)
next
  case False
  with assms(1) have xpos: "0 < x" by simp
  define e where "e = exponent x"
  from exponent_bounds [OF False] xpos
  have b: "pow2 e \<le> x" "x < pow2 (e + 1)" by (simp_all add: e_def)
  have xn: "x < real n" using assms(2,3) by (simp add: field_simps)
  have "real n \<le> 2 ^ 53" using assms(4) by (metis of_nat_le_iff of_nat_numeral of_nat_power)
  then have "pow2 e < pow2 53" using b(1) xn by (simp add: pow2_def)
  then have e52: "e \<le> 52" using pow2_less_imp [of e 53] by simp
  define k where "k = (2::int) ^ nat (52 - e)"
  have u: "pow2 (e - 52) = 1 / of_int k" unfolding k_def by (rule pow2_neg [OF e52])
  have kpos: "0 < real_of_int k" by (simp add: k_def)
  have k2: "real_of_int k = 2 ^ 53 / pow2 (e + 1)"
  proof -
    have "pow2 (52 - e) * pow2 (e + 1) = pow2 53"
      using pow2_add [of "52 - e" "e + 1"] by simp
    moreover have "pow2 (52 - e) = of_int k"
      using e52 by (simp add: pow2_nat k_def)
    ultimately show ?thesis by (simp add: field_simps pow2_def)
  qed
  have half: "1 / 2 < real n / pow2 (e + 1)"
  proof -
    have "pow2 (e + 1) = 2 * pow2 e" by (rule pow2_Suc)
    moreover have "pow2 e < real n" using b(1) xn by simp
    ultimately show ?thesis by (simp add: field_simps)
  qed
  have "x / pow2 (e - 52) = x * of_int k" by (simp add: u)
  also have "\<dots> \<le> (real n - real n / 2 ^ 53) * of_int k"
    using assms(2) kpos by (intro mult_right_mono) simp_all
  also have "\<dots> = real n * of_int k - real n / pow2 (e + 1)"
    by (simp add: k2 field_simps)
  also have "\<dots> < real n * of_int k - 1 / 2"
    using half by simp
  finally have "x / pow2 (e - 52) < of_int (int n * k) - 1 / 2"
    by simp
  then have "round_ties_even (x / pow2 (e - 52)) < int n * k"
    by (rule round_ties_even_less)
  then have "real_of_int (round_ties_even (x / pow2 (e - 52))) < of_int (int n * k)"
    by (simp only: of_int_less_iff)
  then have "real_of_int (round_ties_even (x / pow2 (e - 52))) * pow2 (e - 52) < real n"
    using kpos by (simp add: u field_simps)
  then show ?thesis
    using False by (simp add: fl_def Let_def e_def)
qed

lemma randomIndex_in_range:
  assumes "0 \<le> rnd" "rnd \<le> 1 - 1 / 2 ^ 53" "0 < n" "n \<le> 2 ^ 53"
  shows "0 \<le> \<lfloor>mul_double rnd (real n)\<rfloor> \<and> \<lfloor>mul_double rnd (real n)\<rfloor> < int n"
proof -
  have "rnd * real n \<le> (1 - 1 / 2 ^ 53) * real n"
    using assms(2) by (intro mult_right_mono) simp_all
  then have "rnd * real n \<le> real n - real n / 2 ^ 53"
    by (simp add: field_simps)
  moreover have x0: "0 \<le> rnd * real n" using assms(1) by simp
  ultimately have "fl (rnd * real n) < real n"
    using assms(3,4) by (intro fl_less_nat)
  then have "\<lfloor>fl (rnd * real n)\<rfloor> < int n"
    by (simp add: floor_less_iff)
  moreover have "0 \<le> \<lfloor>fl (rnd * real n)\<rfloor>"
    using fl_nonneg [OF x0] by simp
  ultimately show ?thesis by (simp add: mul_double_def)
qed


lemma fl_three_tenths: "fl (3 / 10) = 5404319552844595 / 18014398509481984"
  by code_simp

lemma topCount_exact:
  assumes "0 < n" "n < 2 ^ 32"
  shows "\<lceil>mul_double (real n) (fl (3 / 10))\<rceil> = \<lceil>real n * (3 / 10)\<rceil>"
proof -
  define x where "x = real n * (5404319552844595 / 18014398509481984)"
  define m where "m = \<lceil>real n * (3 / 10)\<rceil>"
  have npos: "0 < real n" using assms(1) by simp
  have n32: "real n < 2 ^ 32"
    using assms(2) by (metis of_nat_less_iff of_nat_numeral of_nat_power)
  have xpos: "0 < x" using npos by (simp add: x_def)
  have gap: "real n * (3 / 10) - x = real n / 90071992547409920"
    by (simp add: x_def field_simps)
  have xle: "x \<le> real n * (3 / 10)" using gap npos by simp
  have m_up: "real n * (3 / 10) \<le> of_int m" by (simp add: m_def)
  have "real_of_int (m - 1) < real n * (3 / 10)"
    unfolding m_def using ceiling_correct [of "real n * (3 / 10)"] by simp
  then have "real_of_int (10 * (m - 1)) < real_of_int (3 * int n)" by simp
  then have "10 * (m - 1) < 3 * int n" by (simp only: of_int_less_iff)
  then have "10 * (m - 1) + 1 \<le> 3 * int n" by simp
  then have "real_of_int (10 * (m - 1) + 1) \<le> real_of_int (3 * int n)"
    by (simp only: of_int_le_iff)
  then have m_low: "of_int (m - 1) + 1 / 10 \<le> real n * (3 / 10)" by simp
  define e where "e = exponent x"
  have "x \<noteq> 0" using xpos by simp
  from exponent_bounds [OF this] xpos
  have b: "pow2 e \<le> x" "x < pow2 (e + 1)" by (simp_all add: e_def)
  have "x < 2 ^ 32" using xle n32 npos by simp
  then have "pow2 e < pow2 32" using b(1) by (simp add: pow2_def)
  then have e31: "e \<le> 31" using pow2_less_imp [of e 32] by simp
  then have e52: "e \<le> 52" by simp
  define k where "k = (2::int) ^ nat (52 - e)"
  have u: "pow2 (e - 52) = 1 / of_int k" unfolding k_def by (rule pow2_neg [OF e52])
  have kpos: "0 < real_of_int k" by (simp add: k_def)
  have "pow2 21 \<le> pow2 (52 - e)" using e31 by (intro pow2_mono) simp
  moreover have "pow2 (52 - e) = of_int k" using e52 by (simp add: pow2_nat k_def)
  ultimately have kbig: "2 ^ 21 \<le> real_of_int k" by (simp add: pow2_def)
  have flx: "fl x = of_int (round_ties_even (x * of_int k)) / of_int k"
    using \<open>x \<noteq> 0\<close> by (simp add: fl_def Let_def e_def [symmetric] u)
  have "x * of_int k \<le> of_int (m * k)"
    using xle m_up kpos by (simp add: mult_right_mono)
  then have "round_ties_even (x * of_int k) \<le> m * k"
    by (rule round_ties_even_le)
  then have "real_of_int (round_ties_even (x * of_int k)) \<le> of_int (m * k)"
    by (simp only: of_int_le_iff)
  then have upper: "fl x \<le> of_int m"
    using kpos by (simp add: flx field_simps)
  have "of_int (m - 1) + 1 / 10 - real n / 90071992547409920 \<le> x"
    using m_low gap by simp
  moreover have "real n / 90071992547409920 < 1 / 20"
    using n32 by simp
  ultimately have "of_int (m - 1) + 1 / 20 < x" by simp
  then have "(of_int (m - 1) + 1 / 20) * of_int k < x * of_int k"
    using kpos by (simp only: mult_less_cancel_right_pos)
  moreover have "1 / 2 < 1 / 20 * real_of_int k"
    using kbig by simp
  ultimately have "of_int ((m - 1) * k) + 1 / 2 < x * of_int k"
    by (simp add: algebra_simps)
  then have "(m - 1) * k < round_ties_even (x * of_int k)"
    by (rule round_ties_even_greater)
  then have "real_of_int ((m - 1) * k) < of_int (round_ties_even (x * of_int k))"
    by (simp only: of_int_less_iff)
  then have lower: "of_int m - 1 < fl x"
    using kpos by (simp add: flx field_simps)
  have "\<lceil>fl x\<rceil> = m"
    using lower upper by (rule ceiling_unique)
  then show ?thesis
    by (simp add: mul_double_def fl_three_tenths x_def m_def)
qed


lemma fl_zero [simp]: "fl 0 = 0"
  by (simp add: fl_def)

lemma is_integer_of_int [simp]: "is_integer (of_int n)"
  by (simp add: is_integer_def)

lemma is_integerE:
  assumes "is_integer v"
  obtains n where "v = of_int n"
  using assms by (metis is_integer_def)

lemma is_integer_add: "is_integer a \<Longrightarrow> is_integer b \<Longrightarrow> is_integer (a + b)"
  by (elim is_integerE) (simp flip: of_int_add)

lemma fl_integer:
  assumes "is_integer v" "\<bar>v\<bar> \<le> 2 ^ 53"
  shows "fl v = v"
proof -
  from assms(1) obtain n where n: "v = of_int n" by (rule is_integerE)
  have "real_of_int \<bar>n\<bar> \<le> real_of_int (2 ^ 53)"
    using assms(2) by (simp add: n)
  then have "\<bar>n\<bar> \<le> 2 ^ 53" by (simp only: of_int_le_iff)
  then show ?thesis unfolding n by (rule fl_of_int)
qed

lemma add_double_exact:
  assumes "is_integer a" "is_integer b" "\<bar>a + b\<bar> \<le> 2 ^ 53"
  shows "add_double a b = a + b"
  unfolding add_double_def using is_integer_add [OF assms(1,2)] assms(3) by (rule fl_integer)

section \<open>Properties of the Sum Generator\<close>

lemma picks_Nil [simp]: "picks [] c \<longleftrightarrow> c = []"
  by (simp add: picks_def)

lemma picks_Cons:
  "picks (g # gs) c \<longleftrightarrow> (\<exists>v c'. c = v # c' \<and> v \<in> set g \<and> picks gs c')"
  by (cases c) (auto simp: picks_def)

lemma reachableSums_Nil [simp]: "reachableSums [] = {0}"
  by (auto simp: reachableSums_def)

lemma reachableSums_Cons:
  "reachableSums (g # gs) = {v + s | v s. v \<in> set g \<and> s \<in> reachableSums gs}"
proof (intro set_eqI iffI)
  fix x assume "x \<in> reachableSums (g # gs)"
  then obtain v c where "v \<in> set g" "picks gs c" "x = v + sum_list c"
    by (auto simp: reachableSums_def picks_Cons)
  then show "x \<in> {v + s | v s. v \<in> set g \<and> s \<in> reachableSums gs}"
    by (auto simp: reachableSums_def)
next
  fix x assume "x \<in> {v + s | v s. v \<in> set g \<and> s \<in> reachableSums gs}"
  then obtain v c where vc: "v \<in> set g" "picks gs c" "x = v + sum_list c"
    by (auto simp: reachableSums_def)
  then have "picks (g # gs) (v # c) \<and> sum_list (v # c) = x"
    by (simp add: picks_Cons)
  then show "x \<in> reachableSums (g # gs)"
    unfolding reachableSums_def by blast
qed

lemma set_dedupe_aux:
  "set (fold (\<lambda>x seen. if x \<in> set seen then seen else seen @ [x]) xs acc) = set acc \<union> set xs"
  by (induction xs arbitrary: acc) auto

lemma distinct_dedupe_aux:
  "distinct acc \<Longrightarrow>
   distinct (fold (\<lambda>x seen. if x \<in> set seen then seen else seen @ [x]) xs acc)"
  by (induction xs arbitrary: acc) auto

lemma set_dedupe [simp]: "set (dedupe xs) = set xs"
  by (simp add: dedupe_def set_dedupe_aux)

lemma distinct_dedupe [simp]: "distinct (dedupe xs)"
  by (simp add: dedupe_def distinct_dedupe_aux)

lemma set_sortDescending [simp]: "set (sortDescending xs) = set xs"
  by (simp add: sortDescending_def)

lemma distinct_sortDescending [simp]: "distinct (sortDescending xs) = distinct xs"
  by (simp add: sortDescending_def)

lemma sorted_wrt_map_uminus:
  "sorted (map (\<lambda>a::real. - a) xs) \<Longrightarrow> sorted_wrt (\<lambda>a b. b \<le> a) xs"
  by (induction xs) auto

lemma sortDescending_sorted: "sorted_wrt (\<lambda>a b. b \<le> a) (sortDescending xs)"
  unfolding sortDescending_def by (rule sorted_wrt_map_uminus) simp

lemma strict_descending:
  "sorted_wrt (\<lambda>a b. b \<le> a) xs \<Longrightarrow> distinct xs \<Longrightarrow> sorted_wrt (\<lambda>a b::real. b < a) xs"
  by (induction xs) (auto simp: less_le)

lemma maxabs_nonneg: "0 \<le> maxabs g"
  by (induction g) (simp_all add: maxabs_def)

lemma maxabs_ge: "v \<in> set g \<Longrightarrow> \<bar>v\<bar> \<le> maxabs g"
  by (induction g) (auto simp: maxabs_def)

lemma maxabs_le: "\<forall>v \<in> set g. \<bar>v\<bar> \<le> M \<Longrightarrow> 0 \<le> M \<Longrightarrow> maxabs g \<le> M"
  by (induction g) (auto simp: maxabs_def)

lemma span_Nil [simp]: "total_span [] = 0"
  by (simp add: total_span_def)

lemma span_Cons [simp]: "total_span (g # gs) = maxabs g + total_span gs"
  by (simp add: total_span_def)

lemma span_nonneg: "0 \<le> total_span groups"
  by (induction groups) (simp_all add: maxabs_nonneg)

lemma safe_integers_iff:
  "safe_integers groups \<longleftrightarrow>
     (\<forall>g \<in> set groups. \<forall>v \<in> set g. is_integer v) \<and> total_span groups \<le> 2 ^ 53"
  by (simp add: safe_integers_def list_all_iff)

lemma positive_iff: "positive groups \<longleftrightarrow> (\<forall>g \<in> set groups. \<forall>v \<in> set g. 0 < v)"
  by (simp add: positive_def list_all_iff)

lemma picks_sum_bound: "picks groups c \<Longrightarrow> \<bar>sum_list c\<bar> \<le> total_span groups"
proof (induction groups arbitrary: c)
  case Nil
  then show ?case by simp
next
  case (Cons g gs)
  then obtain v c' where c: "c = v # c'" "v \<in> set g" "picks gs c'"
    by (auto simp: picks_Cons)
  have "\<bar>v + sum_list c'\<bar> \<le> \<bar>v\<bar> + \<bar>sum_list c'\<bar>" by simp
  also have "\<dots> \<le> maxabs g + total_span gs"
    using maxabs_ge [OF c(2)] Cons.IH [OF c(3)] by simp
  finally show ?case by (simp add: c(1))
qed

lemma picks_sum_integer:
  "picks groups c \<Longrightarrow> \<forall>g \<in> set groups. \<forall>v \<in> set g. is_integer v \<Longrightarrow> is_integer (sum_list c)"
proof (induction groups arbitrary: c)
  case Nil
  then show ?case by (simp add: is_integer_def)
next
  case (Cons g gs)
  then obtain v c' where c: "c = v # c'" "v \<in> set g" "picks gs c'"
    by (auto simp: picks_Cons)
  have "is_integer v" using c(2) Cons.prems(2) by simp
  moreover have "is_integer (sum_list c')" using Cons.IH [OF c(3)] Cons.prems(2) by simp
  ultimately show ?case by (simp add: c(1) is_integer_add)
qed

lemma newSums_exact:
  assumes "\<forall>a \<in> set xs. is_integer a \<and> \<bar>a\<bar> \<le> B"
    and "\<forall>v \<in> set g. is_integer v"
    and "B + maxabs g \<le> 2 ^ 53"
  shows "newSums xs g = concat (map (\<lambda>s. map (\<lambda>n. s + n) g) xs)"
proof -
  have "add_double s n = s + n" if "s \<in> set xs" "n \<in> set g" for s n
  proof (rule add_double_exact)
    show "is_integer s" "is_integer n" using assms(1,2) that by simp_all
    have "\<bar>s + n\<bar> \<le> \<bar>s\<bar> + \<bar>n\<bar>" by simp
    also have "\<dots> \<le> B + maxabs g"
      using assms(1) that maxabs_ge [of n g] by (simp add: add_mono)
    finally show "\<bar>s + n\<bar> \<le> 2 ^ 53" using assms(3) by simp
  qed
  then show ?thesis
    unfolding newSums_def by (intro arg_cong [of _ _ concat] map_cong refl) simp
qed

lemma set_exact_sums:
  "set (concat (map (\<lambda>s. map (\<lambda>n. s + n) g) xs)) = {a + b | a b. a \<in> set xs \<and> b \<in> set g}"
  by auto

lemma set_fold_newSums:
  assumes "\<forall>a \<in> set first. is_integer a \<and> \<bar>a\<bar> \<le> B"
    and "\<forall>g \<in> set rest. \<forall>v \<in> set g. is_integer v"
    and "B + total_span rest \<le> 2 ^ 53"
  shows "set (fold (\<lambda>nums sums'. newSums sums' nums) rest first) =
         {a + s | a s. a \<in> set first \<and> s \<in> reachableSums rest}"
  using assms
proof (induction rest arbitrary: first B)
  case Nil
  show ?case by simp
next
  case (Cons g gs)
  have g_int: "\<forall>v \<in> set g. is_integer v" using Cons.prems(2) by simp
  have bound: "B + maxabs g \<le> 2 ^ 53"
    using Cons.prems(3) span_nonneg [of gs] by simp
  have exact: "newSums first g = concat (map (\<lambda>s. map (\<lambda>n. s + n) g) first)"
    using Cons.prems(1) g_int bound by (rule newSums_exact)
  have elems: "set (newSums first g) = {a + b | a b. a \<in> set first \<and> b \<in> set g}"
    unfolding exact by (rule set_exact_sums)
  have next_first: "\<forall>x \<in> set (newSums first g). is_integer x \<and> \<bar>x\<bar> \<le> B + maxabs g"
  proof
    fix x assume "x \<in> set (newSums first g)"
    then obtain a b where ab: "x = a + b" "a \<in> set first" "b \<in> set g"
      unfolding elems by blast
    have "\<bar>a + b\<bar> \<le> \<bar>a\<bar> + \<bar>b\<bar>" by simp
    also have "\<dots> \<le> B + maxabs g"
      using Cons.prems(1) ab(2) maxabs_ge [OF ab(3)] by (simp add: add_mono)
    finally show "is_integer x \<and> \<bar>x\<bar> \<le> B + maxabs g"
      using Cons.prems(1) g_int ab by (simp add: is_integer_add)
  qed
  have "set (fold (\<lambda>nums sums'. newSums sums' nums) (g # gs) first) =
        {a + s | a s. a \<in> set (newSums first g) \<and> s \<in> reachableSums gs}"
    using Cons.IH [OF next_first, of] Cons.prems(2,3) by (simp add: add.assoc)
  also have "\<dots> = {a + s | a s. a \<in> set first \<and> s \<in> reachableSums (g # gs)}"
  proof (intro set_eqI iffI)
    fix x assume "x \<in> {a + s | a s. a \<in> set (newSums first g) \<and> s \<in> reachableSums gs}"
    then obtain a b s where "a \<in> set first" "b \<in> set g" "s \<in> reachableSums gs"
      "x = a + b + s"
      by (auto simp: elems)
    then have "a \<in> set first \<and> b + s \<in> reachableSums (g # gs) \<and> x = a + (b + s)"
      by (auto simp: reachableSums_Cons)
    then show "x \<in> {a + s | a s. a \<in> set first \<and> s \<in> reachableSums (g # gs)}"
      by blast
  next
    fix x assume "x \<in> {a + s | a s. a \<in> set first \<and> s \<in> reachableSums (g # gs)}"
    then obtain a b s where "a \<in> set first" "b \<in> set g" "s \<in> reachableSums gs"
      "x = a + (b + s)"
      by (auto simp: reachableSums_Cons)
    then have "a + b \<in> set (newSums first g) \<and> s \<in> reachableSums gs \<and> x = (a + b) + s"
      by (auto simp: elems)
    then show "x \<in> {a + s | a s. a \<in> set (newSums first g) \<and> s \<in> reachableSums gs}"
      by blast
  qed
  finally show ?case .
qed

lemma set_calculateCartesianSum:
  assumes "groups \<noteq> []" "safe_integers groups"
  shows "set (calculateCartesianSum groups) = reachableSums groups"
proof -
  from assms(1) obtain first rest where g: "groups = first # rest"
    by (cases groups) auto
  have "\<forall>a \<in> set first. is_integer a \<and> \<bar>a\<bar> \<le> maxabs first"
    using assms(2) by (simp add: g safe_integers_iff maxabs_ge)
  moreover have "\<forall>g \<in> set rest. \<forall>v \<in> set g. is_integer v"
    using assms(2) by (simp add: g safe_integers_iff)
  moreover have "maxabs first + total_span rest \<le> 2 ^ 53"
    using assms(2) by (simp add: g safe_integers_iff)
  ultimately have "set (fold (\<lambda>nums sums'. newSums sums' nums) rest first) =
      {a + s | a s. a \<in> set first \<and> s \<in> reachableSums rest}"
    by (rule set_fold_newSums)
  then show ?thesis
    by (simp add: g reachableSums_Cons)
qed

lemma calculateCartesianSum_descending:
  "sorted_wrt (\<lambda>a b. b < a) (calculateCartesianSum groups)"
  by (cases groups) (simp_all add: strict_descending sortDescending_sorted)

lemma calculateCartesianSum_big:
  "calculateCartesianSum [[9007199254740992], [1, 2]] = [9007199254740994, 9007199254740992]"
  by code_simp

text \<open>
  C1 as stated fails from \<open>2^53\<close> on, where the sum of two integers is rounded: for
  the groups \<open>[2^53]\<close> and \<open>[1, 2]\<close> the pick \<open>2^53, 1\<close> has the sum \<open>2^53 + 1\<close>, and
  the output \<open>[2^53 + 2, 2^53]\<close> does not hold it.
\<close>

theorem calculateCartesianSum_misses_sum:
  "[[9007199254740992], [1, 2 :: real]] \<noteq> []
   \<and> list_all (list_all is_integer) [[9007199254740992], [1, 2]]
   \<and> picks [[9007199254740992], [1, 2]] [9007199254740992, 1]
   \<and> sum_list [9007199254740992, 1 :: real] \<notin>
       set (calculateCartesianSum [[9007199254740992], [1, 2]])"
proof -
  have "sum_list [9007199254740992, 1 :: real] \<notin> set [9007199254740994, 9007199254740992]"
    by simp
  then have "sum_list [9007199254740992, 1 :: real] \<notin>
      set (calculateCartesianSum [[9007199254740992], [1, 2]])"
    unfolding calculateCartesianSum_big .
  moreover have "picks [[9007199254740992], [1, 2]] [9007199254740992, 1]"
    by (simp add: picks_def)
  moreover have "list_all (list_all is_integer) [[9007199254740992], [1, 2]]"
    by (simp add: is_integer_def)
  ultimately show ?thesis by blast
qed

text \<open>
  C1, amended. For every non-empty sequence of groups of integers whose largest absolute
  values add up to at most \<open>2^53\<close>, \<open>calculateCartesianSum\<close> returns exactly the sums
  obtainable by picking one value from each group: every value of the output is the sum
  of some choice of one value per group, every such sum is in the output, the output
  has no duplicates and it is sorted descending.
\<close>

theorem calculateCartesianSum_exact:
  assumes "groups \<noteq> []" "safe_integers groups"
  shows "(\<forall>s. s \<in> set (calculateCartesianSum groups) \<longleftrightarrow>
              (\<exists>c. picks groups c \<and> sum_list c = s))
       \<and> distinct (calculateCartesianSum groups)
       \<and> sorted_wrt (\<lambda>a b. b \<le> a) (calculateCartesianSum groups)"
proof -
  have "set (calculateCartesianSum groups) = reachableSums groups"
    using assms by (rule set_calculateCartesianSum)
  then have "\<forall>s. s \<in> set (calculateCartesianSum groups) \<longleftrightarrow>
                 (\<exists>c. picks groups c \<and> sum_list c = s)"
    by (simp add: reachableSums_def)
  moreover have "distinct (calculateCartesianSum groups)"
    by (cases groups) simp_all
  moreover have "sorted_wrt (\<lambda>a b. b \<le> a) (calculateCartesianSum groups)"
    by (cases groups) (simp_all add: sortDescending_sorted)
  ultimately show ?thesis by blast
qed

lemma safe_small: "safe_integers [[1, 2], [10, 20]]"
  by (simp add: safe_integers_def total_span_def maxabs_def is_integer_def)

theorem calculateCartesianSum_exact_witness:
  "[[1, 2], [10, 20 :: real]] \<noteq> []
   \<and> safe_integers [[1, 2], [10, 20]]
   \<and> (\<forall>s. s \<in> set (calculateCartesianSum [[1, 2], [10, 20]]) \<longleftrightarrow>
            (\<exists>c. picks [[1, 2], [10, 20]] c \<and> sum_list c = s))
   \<and> distinct (calculateCartesianSum [[1, 2], [10, 20]])
   \<and> sorted_wrt (\<lambda>a b. b \<le> a) (calculateCartesianSum [[1, 2], [10, 20]])"
proof -
  have h: "[[1, 2], [10, 20 :: real]] \<noteq> []" by simp
  show ?thesis
    by (rule conjI [OF h conjI [OF safe_small calculateCartesianSum_exact [OF h safe_small]]])
qed

lemma calculateCartesianSum_scenario:
  "calculateCartesianSum [[1, 2], [10, 20]] = [22, 21, 12, 11]"
  by code_simp

section \<open>Properties of the Decomposition Search\<close>

lemma fold_append_results:
  assumes "\<And>x c. x \<in> set xs \<Longrightarrow> F x c = c @ G x"
  shows "fold F xs c0 = c0 @ concat (map G xs)"
  using assms by (induction xs arbitrary: c0) simp_all

lemma backtrack_item_search:
  "index \<le> length itemResults' \<Longrightarrow>
   backtrack_item targetSum itemResults' index currentSum current combinations =
   combinations @ search targetSum (drop index itemResults') currentSum current"
proof (induction targetSum itemResults' index currentSum current combinations
    rule: backtrack_item.induct)
  case (1 targetSum itemResults' index currentSum current combinations)
  show ?case
  proof (cases "index = length itemResults'")
    case True
    then show ?thesis by (subst backtrack_item.simps) simp
  next
    case False
    with "1.prems" have lt: "index < length itemResults'" by simp
    have step: "\<And>score c. score \<in> set (itemResults' ! index) \<Longrightarrow>
        (if add_double currentSum score \<le> targetSum
         then backtrack_item targetSum itemResults' (index + 1) (add_double currentSum score)
                (current @ [score]) c
         else c) =
        c @ (if add_double currentSum score \<le> targetSum
             then search targetSum (drop (index + 1) itemResults') (add_double currentSum score)
                    (current @ [score])
             else [])"
      using "1.IH" [OF False lt] lt by simp
    have bt: "backtrack_item targetSum itemResults' index currentSum current combinations =
          combinations @ concat (map (\<lambda>score. if add_double currentSum score \<le> targetSum
             then search targetSum (drop (index + 1) itemResults') (add_double currentSum score)
                    (current @ [score])
             else []) (itemResults' ! index))"
      using False lt
      by (subst backtrack_item.simps) (simp add: fold_append_results [OF step])
    have dr: "drop index itemResults' = itemResults' ! index # drop (index + 1) itemResults'"
      using lt by (simp add: Cons_nth_drop_Suc)
    show ?thesis
      unfolding dr search.simps by (rule bt)
  qed
qed

lemma backtrack_element_search:
  "index \<le> length elements \<Longrightarrow>
   backtrack_element targetSum elements index currentSum current combinations =
   combinations @ search targetSum (drop index elements) currentSum current"
proof (induction targetSum elements index currentSum current combinations
    rule: backtrack_element.induct)
  case (1 targetSum elements index currentSum current combinations)
  show ?case
  proof (cases "index = length elements")
    case True
    then show ?thesis by (subst backtrack_element.simps) simp
  next
    case False
    with "1.prems" have lt: "index < length elements" by simp
    have step: "\<And>score c. score \<in> set (elements ! index) \<Longrightarrow>
        (if add_double currentSum score \<le> targetSum
         then backtrack_element targetSum elements (index + 1) (add_double currentSum score)
                (current @ [score]) c
         else c) =
        c @ (if add_double currentSum score \<le> targetSum
             then search targetSum (drop (index + 1) elements) (add_double currentSum score)
                    (current @ [score])
             else [])"
      using "1.IH" [OF False lt] lt by simp
    have bt: "backtrack_element targetSum elements index currentSum current combinations =
          combinations @ concat (map (\<lambda>score. if add_double currentSum score \<le> targetSum
             then search targetSum (drop (index + 1) elements) (add_double currentSum score)
                    (current @ [score])
             else []) (elements ! index))"
      using False lt
      by (subst backtrack_element.simps) (simp add: fold_append_results [OF step])
    have dr: "drop index elements = elements ! index # drop (index + 1) elements"
      using lt by (simp add: Cons_nth_drop_Suc)
    show ?thesis
      unfolding dr search.simps by (rule bt)
  qed
qed

lemma findItemCombinations_search:
  "findItemCombinations targetSum groups = search targetSum groups 0 []"
  by (simp add: findItemCombinations_def backtrack_item_search)

lemma findElementCombinations_search:
  "findElementCombinations targetSum groups = search targetSum groups 0 []"
  by (simp add: findElementCombinations_def backtrack_element_search)

lemma picks_sum_nonneg:
  "picks groups c \<Longrightarrow> \<forall>g \<in> set groups. \<forall>v \<in> set g. 0 \<le> v \<Longrightarrow> 0 \<le> sum_list c"
  by (induction groups arbitrary: c) (auto simp: picks_Cons)

lemma set_search:
  assumes "\<forall>g \<in> set groups. \<forall>v \<in> set g. is_integer v \<and> 0 \<le> v"
    and "is_integer currentSum" "0 \<le> currentSum"
    and "currentSum + total_span groups \<le> 2 ^ 53"
  shows "set (search targetSum groups currentSum current) =
         {current @ c | c. picks groups c \<and> currentSum + sum_list c = targetSum}"
  using assms
proof (induction groups arbitrary: currentSum current)
  case Nil
  show ?case by auto
next
  case (Cons g gs)
  have nonneg: "\<forall>g \<in> set gs. \<forall>v \<in> set g. is_integer v \<and> 0 \<le> v"
    using Cons.prems(1) by simp
  have nonneg': "\<forall>g \<in> set gs. \<forall>v \<in> set g. 0 \<le> v"
    using nonneg by simp
  have step: "add_double currentSum v = currentSum + v
      \<and> is_integer (currentSum + v) \<and> 0 \<le> currentSum + v
      \<and> currentSum + v + total_span gs \<le> 2 ^ 53" if "v \<in> set g" for v
  proof -
    have v: "is_integer v" "0 \<le> v" using Cons.prems(1) that by simp_all
    have "v \<le> maxabs g" using maxabs_ge [OF that] v(2) by simp
    then have b: "currentSum + v + total_span gs \<le> 2 ^ 53"
      using Cons.prems(4) by simp
    then have "\<bar>currentSum + v\<bar> \<le> 2 ^ 53"
      using span_nonneg [of gs] v(2) Cons.prems(3) by simp
    then have "add_double currentSum v = currentSum + v"
      using Cons.prems(2) v(1) by (intro add_double_exact)
    then show ?thesis
      using b v Cons.prems(2,3) by (simp add: is_integer_add)
  qed
  have IH: "set (search targetSum gs (currentSum + v) cur') =
      {cur' @ c | c. picks gs c \<and> currentSum + v + sum_list c = targetSum}"
    if "v \<in> set g" for v cur'
    using Cons.IH [OF nonneg, of "currentSum + v" cur'] step [OF that] by blast
  show ?case
  proof (intro set_eqI iffI)
    fix x assume "x \<in> set (search targetSum (g # gs) currentSum current)"
    then obtain v where v: "v \<in> set g" "add_double currentSum v \<le> targetSum"
      "x \<in> set (search targetSum gs (add_double currentSum v) (current @ [v]))"
      by (auto split: if_splits)
    from v(3) step [OF v(1)]
    have "x \<in> set (search targetSum gs (currentSum + v) (current @ [v]))" by simp
    then obtain c where c: "x = (current @ [v]) @ c" "picks gs c"
      "currentSum + v + sum_list c = targetSum"
      unfolding IH [OF v(1)] by blast
    then have "x = current @ (v # c) \<and> picks (g # gs) (v # c)
               \<and> currentSum + sum_list (v # c) = targetSum"
      using v by (simp add: picks_Cons)
    then show "x \<in> {current @ c | c. picks (g # gs) c \<and> currentSum + sum_list c = targetSum}"
      by blast
  next
    fix x assume "x \<in> {current @ c | c. picks (g # gs) c \<and> currentSum + sum_list c = targetSum}"
    then obtain v c where c: "x = current @ (v # c)" "v \<in> set g" "picks gs c"
      "currentSum + (v + sum_list c) = targetSum"
      by (auto simp: picks_Cons)
    have "0 \<le> sum_list c"
      using picks_sum_nonneg [OF c(3) nonneg'] .
    with c(4) have le: "currentSum + v \<le> targetSum" by simp
    have eq: "add_double currentSum v = currentSum + v"
      using step [OF c(2)] by simp
    have mem: "x \<in> set (search targetSum gs (currentSum + v) (current @ [v]))"
      unfolding IH [OF c(2)] using c by (auto simp: add.assoc)
    have "x \<in> (\<Union>score \<in> set g.
        set (if add_double currentSum score \<le> targetSum
             then search targetSum gs (add_double currentSum score) (current @ [score])
             else []))"
      using c(2) le mem by (intro UN_I [of v]) (simp_all add: eq)
    then show "x \<in> set (search targetSum (g # gs) currentSum current)"
      by auto
  qed
qed

lemma set_findItemCombinations:
  assumes "positive groups" "safe_integers groups"
  shows "set (findItemCombinations targetSum groups) =
         {c. picks groups c \<and> sum_list c = targetSum}"
proof -
  have "\<forall>g \<in> set groups. \<forall>v \<in> set g. is_integer v \<and> 0 \<le> v"
    using assms by (fastforce simp: positive_iff safe_integers_iff)
  moreover have "0 + total_span groups \<le> 2 ^ 53"
    using assms(2) by (simp add: safe_integers_iff)
  ultimately have "set (search targetSum groups 0 []) =
      {[] @ c | c. picks groups c \<and> 0 + sum_list c = targetSum}"
    by (intro set_search) (simp_all add: is_integer_def)
  then show ?thesis
    by (simp add: findItemCombinations_search)
qed

lemma findItemCombinations_big:
  "findItemCombinations 9007199254740992 [[9007199254740992], [1]] = [[9007199254740992, 1]]"
  unfolding findItemCombinations_search by code_simp

text \<open>
  C2 as stated fails from \<open>2^53\<close> on: for the target \<open>2^53\<close> and the groups \<open>[2^53]\<close>
  and \<open>[1]\<close> the search returns \<open>[2^53, 1]\<close>, whose sum is \<open>2^53 + 1\<close>, because the
  running sum \<open>2^53 + 1\<close> is rounded to \<open>2^53\<close>.
\<close>

theorem findItemCombinations_wrong_sum:
  "positive [[9007199254740992], [1]]
   \<and> list_all (list_all is_integer) [[9007199254740992], [1]]
   \<and> findItemCombinations 9007199254740992 [[9007199254740992], [1]] = [[9007199254740992, 1]]
   \<and> sum_list [9007199254740992, 1 :: real] \<noteq> 9007199254740992"
proof -
  have "positive [[9007199254740992], [1]]" by (simp add: positive_def)
  moreover have "list_all (list_all is_integer) [[9007199254740992], [1]]"
    by (simp add: is_integer_def)
  moreover have "sum_list [9007199254740992, 1 :: real] \<noteq> 9007199254740992" by simp
  ultimately show ?thesis using findItemCombinations_big by blast
qed

text \<open>
  C2, amended. For every target and every sequence of groups of positive integers whose
  largest values add up to at most \<open>2^53\<close>, \<open>findItemCombinations\<close> returns exactly the
  combinations that pick one value per group (one entry per group, drawn from that
  group) and sum to the target; the prune on \<open>currentSum + score \<le> targetSum\<close> loses
  none of them.
\<close>

theorem findItemCombinations_exact:
  assumes "positive groups" "safe_integers groups"
  shows "set (findItemCombinations targetSum groups) =
         {c. picks groups c \<and> sum_list c = targetSum}"
  using assms by (rule set_findItemCombinations)

lemma safe_pair: "safe_integers [[2, 1], [2, 1]]"
  by (simp add: safe_integers_def total_span_def maxabs_def is_integer_def)

lemma positive_pair: "positive [[2, 1], [2, 1]]"
  by (simp add: positive_def)

theorem findItemCombinations_exact_witness:
  "positive [[2, 1], [2, 1]] \<and> safe_integers [[2, 1], [2, 1]]
   \<and> set (findItemCombinations 3 [[2, 1], [2, 1]]) =
       {c. picks [[2, 1], [2, 1]] c \<and> sum_list c = 3}"
  by (rule conjI [OF positive_pair conjI [OF safe_pair
        findItemCombinations_exact [OF positive_pair safe_pair]]])

lemma findItemCombinations_scenario:
  "findItemCombinations 3 [[2, 1], [2, 1]] = [[2, 1], [1, 2]]"
  "findItemCombinations 21 [[1, 2], [10, 20]] = [[1, 20]]"
  "findItemCombinations 5 [[1, 2], [10, 20]] = []"
  unfolding findItemCombinations_search by code_simp+

text \<open>
  C10. The item-level and the element-level search are the same function: for every
  target and every sequence of groups they return the same decompositions in the same
  order.
\<close>

theorem findItemCombinations_eq_findElementCombinations:
  "findItemCombinations targetSum groups = findElementCombinations targetSum groups"
  by (simp only: findItemCombinations_search findElementCombinations_search)

section \<open>Order independence of the Sum Generator\<close>

lemma reachableSums_append:
  "reachableSums (xs @ ys) =
   {a + b | a b. a \<in> reachableSums xs \<and> b \<in> reachableSums ys}"
proof (induction xs)
  case Nil
  show ?case by simp
next
  case (Cons g gs)
  show ?case
  proof (intro set_eqI iffI)
    fix x assume "x \<in> reachableSums ((g # gs) @ ys)"
    then obtain v a b where "v \<in> set g" "a \<in> reachableSums gs" "b \<in> reachableSums ys"
      "x = v + (a + b)"
      by (auto simp: reachableSums_Cons Cons.IH)
    then have "v + a \<in> reachableSums (g # gs) \<and> b \<in> reachableSums ys \<and> x = (v + a) + b"
      by (auto simp: reachableSums_Cons)
    then show "x \<in> {a + b | a b. a \<in> reachableSums (g # gs) \<and> b \<in> reachableSums ys}"
      by blast
  next
    fix x assume "x \<in> {a + b | a b. a \<in> reachableSums (g # gs) \<and> b \<in> reachableSums ys}"
    then obtain v a b where "v \<in> set g" "a \<in> reachableSums gs" "b \<in> reachableSums ys"
      "x = (v + a) + b"
      by (auto simp: reachableSums_Cons)
    then have "v \<in> set g \<and> a + b \<in> reachableSums (gs @ ys) \<and> x = v + (a + b)"
      by (auto simp: Cons.IH)
    then show "x \<in> reachableSums ((g # gs) @ ys)"
      by (auto simp: reachableSums_Cons)
  qed
qed

lemma reachableSums_move_front:
  "reachableSums (xs @ g # ys) = reachableSums (g # xs @ ys)"
proof (intro set_eqI iffI)
  fix x assume "x \<in> reachableSums (xs @ g # ys)"
  then obtain a v b where "a \<in> reachableSums xs" "v \<in> set g" "b \<in> reachableSums ys"
    "x = a + (v + b)"
    by (auto simp: reachableSums_append reachableSums_Cons)
  then have "v \<in> set g \<and> a + b \<in> reachableSums (xs @ ys) \<and> x = v + (a + b)"
    by (auto simp: reachableSums_append)
  then show "x \<in> reachableSums (g # xs @ ys)"
    unfolding reachableSums_Cons by blast
next
  fix x assume "x \<in> reachableSums (g # xs @ ys)"
  then obtain a v b where "a \<in> reachableSums xs" "v \<in> set g" "b \<in> reachableSums ys"
    "x = v + (a + b)"
    by (auto simp: reachableSums_append reachableSums_Cons)
  then have "a \<in> reachableSums xs \<and> v + b \<in> reachableSums (g # ys) \<and> x = a + (v + b)"
    by (auto simp: reachableSums_Cons)
  then show "x \<in> reachableSums (xs @ g # ys)"
    unfolding reachableSums_append by blast
qed

lemma reachableSums_mset:
  "mset groups = mset groups' \<Longrightarrow> reachableSums groups = reachableSums groups'"
proof (induction groups arbitrary: groups')
  case Nil
  then show ?case by simp
next
  case (Cons g gs)
  have "g \<in> set groups'"
    using Cons.prems by (metis list.set_intros(1) mset_eq_setD)
  then obtain xs ys where split: "groups' = xs @ g # ys"
    by (auto dest: split_list)
  with Cons.prems have "mset gs = mset (xs @ ys)" by simp
  then have "reachableSums gs = reachableSums (xs @ ys)" by (rule Cons.IH)
  then have "reachableSums (g # gs) = reachableSums (g # xs @ ys)"
    by (simp add: reachableSums_Cons)
  then show ?case
    by (simp add: split reachableSums_move_front)
qed

lemma descending_unique:
  assumes "sorted_wrt (\<lambda>a b. b < a) xs" "sorted_wrt (\<lambda>a b. b < a) ys" "set xs = set ys"
  shows "xs = (ys :: real list)"
proof -
  have "sorted_wrt (<) (rev xs)" "sorted_wrt (<) (rev ys)"
    using assms by (simp_all add: sorted_wrt_rev)
  moreover have "set (rev xs) = set (rev ys)"
    using assms by simp
  ultimately have "rev xs = rev ys"
    by (metis strict_sorted_equal)
  then show ?thesis by simp
qed

lemma total_span_mset: "mset groups' = mset groups \<Longrightarrow> total_span groups' = total_span groups"
  unfolding total_span_def by (metis mset_map sum_mset_sum_list)

lemma safe_integers_mset:
  assumes "mset groups' = mset groups" "safe_integers groups"
  shows "safe_integers groups'"
proof -
  have "set groups' = set groups" using assms(1) by (rule mset_eq_setD)
  then show ?thesis
    using assms(2) total_span_mset [OF assms(1)] by (simp add: safe_integers_iff)
qed

lemma calculateCartesianSum_orders:
  "calculateCartesianSum [[9007199254740992], [1], [1]] = [9007199254740992]"
  "calculateCartesianSum [[1], [1], [9007199254740992]] = [9007199254740994]"
  by code_simp+

text \<open>
  C9 as stated fails from \<open>2^53\<close> on, where the rounded sum depends on the order of
  the additions: the groups \<open>[2^53]\<close>, \<open>[1]\<close>, \<open>[1]\<close> give \<open>[2^53]\<close>, and the same
  groups in the order \<open>[1]\<close>, \<open>[1]\<close>, \<open>[2^53]\<close> give \<open>[2^53 + 2]\<close>.
\<close>

theorem calculateCartesianSum_order_dependent:
  "mset [[1], [1], [9007199254740992 :: real]] = mset [[9007199254740992], [1], [1]]
   \<and> calculateCartesianSum [[9007199254740992], [1], [1]] = [9007199254740992]
   \<and> calculateCartesianSum [[1], [1], [9007199254740992]] = [9007199254740994]
   \<and> calculateCartesianSum [[1], [1], [9007199254740992]] \<noteq>
       calculateCartesianSum [[9007199254740992], [1], [1]]"
proof -
  have "mset [[1], [1], [9007199254740992 :: real]] = mset [[9007199254740992], [1], [1]]"
    by simp
  moreover have "calculateCartesianSum [[1], [1], [9007199254740992]] \<noteq>
      calculateCartesianSum [[9007199254740992], [1], [1]]"
    unfolding calculateCartesianSum_orders by simp
  ultimately show ?thesis
    using calculateCartesianSum_orders by blast
qed

text \<open>
  C9, amended. On groups of integers whose largest absolute values add up to at most
  \<open>2^53\<close> the Sum Generator is order-independent: for every such sequence of groups and
  every permutation of it, \<open>calculateCartesianSum\<close> yields the same set of sums and, the
  output being deduplicated and sorted descending, the same output list.
\<close>

theorem calculateCartesianSum_permutation:
  assumes "safe_integers groups" "mset groups' = mset groups"
  shows "set (calculateCartesianSum groups') = set (calculateCartesianSum groups)
       \<and> calculateCartesianSum groups' = calculateCartesianSum groups"
proof (cases "groups = []")
  case True
  with assms(2) show ?thesis by simp
next
  case False
  with assms(2) have ne: "groups' \<noteq> []" by auto
  have safe': "safe_integers groups'"
    using assms(2,1) by (rule safe_integers_mset)
  have "set (calculateCartesianSum groups') = set (calculateCartesianSum groups)"
    using reachableSums_mset [OF assms(2)]
    by (simp add: set_calculateCartesianSum [OF False assms(1)]
        set_calculateCartesianSum [OF ne safe'])
  then show ?thesis
    using descending_unique [OF calculateCartesianSum_descending
        calculateCartesianSum_descending] by blast
qed

theorem calculateCartesianSum_permutation_witness:
  "safe_integers [[1, 2], [10, 20]]
   \<and> mset [[10, 20], [1, 2 :: real]] = mset [[1, 2], [10, 20]]
   \<and> set (calculateCartesianSum [[10, 20], [1, 2]]) = set (calculateCartesianSum [[1, 2], [10, 20]])
   \<and> calculateCartesianSum [[10, 20], [1, 2]] = calculateCartesianSum [[1, 2], [10, 20]]"
proof -
  have h: "mset [[10, 20], [1, 2 :: real]] = mset [[1, 2], [10, 20]]" by simp
  show ?thesis
    by (rule conjI [OF safe_small conjI [OF h
          calculateCartesianSum_permutation [OF safe_small h]]])
qed

section \<open>Validation\<close>

lemma validate_numbers_None:
  "validate_numbers i j k e = None \<longleftrightarrow> (\<forall>n \<in> set e. \<not> invalid n)"
  by (induction e arbitrary: k) auto

lemma validate_elements_None:
  "validate_elements i j item = None \<longleftrightarrow> (\<forall>e \<in> set item. \<forall>n \<in> set e. \<not> invalid n)"
proof (induction item arbitrary: j)
  case Nil
  show ?case by simp
next
  case (Cons e rest)
  show ?case
  proof (cases "validate_numbers i j 0 e")
    case None
    then have "\<forall>n \<in> set e. \<not> invalid n"
      using validate_numbers_None [of i j 0 e] by blast
    then show ?thesis
      using None Cons.IH [of "j + 1"] by simp
  next
    case (Some msg)
    then have "\<not> (\<forall>n \<in> set e. \<not> invalid n)"
      using validate_numbers_None [of i j 0 e] by simp
    with Some show ?thesis by auto
  qed
qed

lemma validate_items_None:
  "validate_items i items' = None \<longleftrightarrow>
   (\<forall>item \<in> set items'. \<forall>e \<in> set item. \<forall>n \<in> set e. \<not> invalid n)"
proof (induction items' arbitrary: i)
  case Nil
  show ?case by simp
next
  case (Cons item rest)
  show ?case
  proof (cases "validate_elements i 0 item")
    case None
    then have "\<forall>e \<in> set item. \<forall>n \<in> set e. \<not> invalid n"
      using validate_elements_None [of i 0 item] by blast
    then show ?thesis
      using None Cons.IH [of "i + 1"] by simp
  next
    case (Some msg)
    then have "\<not> (\<forall>e \<in> set item. \<forall>n \<in> set e. \<not> invalid n)"
      using validate_elements_None [of i 0 item] by simp
    with Some show ?thesis by auto
  qed
qed

lemma validate_None:
  "validate items' = None \<longleftrightarrow>
   (\<forall>item \<in> set items'. \<forall>e \<in> set item. \<forall>n \<in> set e. \<not> invalid n)"
  by (simp add: validate_def validate_items_None)

lemma numbers_positive:
  "\<forall>n \<in> set e. \<not> invalid n \<Longrightarrow> \<forall>v \<in> set (numbers e). 0 < v"
  by (induction e rule: numbers.induct) auto

lemma numbers_lossless:
  "\<forall>n \<in> set e. \<not> invalid n \<Longrightarrow> map Num (numbers e) = e"
  by (induction e rule: numbers.induct) auto

section \<open>Validation stops at the first invalid value\<close>

lemma validate_numbers_first:
  assumes "\<exists>n \<in> set e. invalid n"
  shows "\<exists>k' < length e. validate_numbers i j k e = Some (InvalidNumber (i + 1) (j + 1) (k + k' + 1))
           \<and> invalid (e ! k') \<and> (\<forall>k'' < k'. \<not> invalid (e ! k''))"
  using assms
proof (induction e arbitrary: k)
  case Nil
  then show ?case by simp
next
  case (Cons n rest)
  show ?case
  proof (cases "invalid n")
    case True
    then show ?thesis by (intro exI [of _ 0]) simp
  next
    case False
    with Cons.prems have "\<exists>n \<in> set rest. invalid n" by auto
    from Cons.IH [OF this, of "k + 1"] obtain k' where k': "k' < length rest"
      "validate_numbers i j (k + 1) rest = Some (InvalidNumber (i + 1) (j + 1) (k + 1 + k' + 1))"
      "invalid (rest ! k')" "\<forall>k'' < k'. \<not> invalid (rest ! k'')"
      by blast
    have "\<forall>k'' < Suc k'. \<not> invalid ((n # rest) ! k'')"
      using False k'(4) by (auto simp: nth_Cons split: nat.splits)
    with False k' show ?thesis
      by (intro exI [of _ "Suc k'"]) simp
  qed
qed

lemma validate_elements_first:
  assumes "\<exists>e \<in> set item. \<exists>n \<in> set e. invalid n"
  shows "\<exists>j' k'. j' < length item \<and> k' < length (item ! j')
           \<and> validate_elements i j item = Some (InvalidNumber (i + 1) (j + j' + 1) (k' + 1))
           \<and> invalid (item ! j' ! k') \<and> (\<forall>k'' < k'. \<not> invalid (item ! j' ! k''))
           \<and> (\<forall>j'' < j'. \<forall>n \<in> set (item ! j''). \<not> invalid n)"
  using assms
proof (induction item arbitrary: j)
  case Nil
  then show ?case by simp
next
  case (Cons e rest)
  show ?case
  proof (cases "\<exists>n \<in> set e. invalid n")
    case True
    from validate_numbers_first [OF True, of i j 0] obtain k' where k': "k' < length e"
      "validate_numbers i j 0 e = Some (InvalidNumber (i + 1) (j + 1) (k' + 1))"
      "invalid (e ! k')" "\<forall>k'' < k'. \<not> invalid (e ! k'')"
      by auto
    then show ?thesis
      by (intro exI [of _ 0] exI [of _ k']) simp
  next
    case False
    then have none: "validate_numbers i j 0 e = None"
      by (simp add: validate_numbers_None)
    from False Cons.prems have "\<exists>e \<in> set rest. \<exists>n \<in> set e. invalid n" by auto
    from Cons.IH [OF this, of "j + 1"] obtain j' k' where jk: "j' < length rest"
      "k' < length (rest ! j')"
      "validate_elements i (j + 1) rest = Some (InvalidNumber (i + 1) (j + 1 + j' + 1) (k' + 1))"
      "invalid (rest ! j' ! k')" "\<forall>k'' < k'. \<not> invalid (rest ! j' ! k'')"
      "\<forall>j'' < j'. \<forall>n \<in> set (rest ! j''). \<not> invalid n"
      by blast
    have "\<forall>j'' < Suc j'. \<forall>n \<in> set ((e # rest) ! j''). \<not> invalid n"
      using False jk(6) by (auto simp: nth_Cons split: nat.splits)
    with none jk show ?thesis
      by (intro exI [of _ "Suc j'"] exI [of _ k']) simp
  qed
qed

lemma validate_items_first:
  assumes "\<exists>item \<in> set items'. \<exists>e \<in> set item. \<exists>n \<in> set e. invalid n"
  shows "\<exists>i' j' k'. i' < length items' \<and> j' < length (items' ! i')
           \<and> k' < length (items' ! i' ! j')
           \<and> validate_items i items' = Some (InvalidNumber (i + i' + 1) (j' + 1) (k' + 1))
           \<and> invalid (items' ! i' ! j' ! k')
           \<and> (\<forall>k'' < k'. \<not> invalid (items' ! i' ! j' ! k''))
           \<and> (\<forall>j'' < j'. \<forall>n \<in> set (items' ! i' ! j''). \<not> invalid n)
           \<and> (\<forall>i'' < i'. \<forall>e \<in> set (items' ! i''). \<forall>n \<in> set e. \<not> invalid n)"
  using assms
proof (induction items' arbitrary: i)
  case Nil
  then show ?case by simp
next
  case (Cons item rest)
  show ?case
  proof (cases "\<exists>e \<in> set item. \<exists>n \<in> set e. invalid n")
    case True
    from validate_elements_first [OF True, of i 0] obtain j' k' where jk: "j' < length item"
      "k' < length (item ! j')"
      "validate_elements i 0 item = Some (InvalidNumber (i + 1) (j' + 1) (k' + 1))"
      "invalid (item ! j' ! k')" "\<forall>k'' < k'. \<not> invalid (item ! j' ! k'')"
      "\<forall>j'' < j'. \<forall>n \<in> set (item ! j''). \<not> invalid n"
      by auto
    then show ?thesis
      by (intro exI [of _ 0] exI [of _ j'] exI [of _ k']) simp
  next
    case False
    then have none: "validate_elements i 0 item = None"
      by (simp add: validate_elements_None)
    from False Cons.prems
    have "\<exists>item \<in> set rest. \<exists>e \<in> set item. \<exists>n \<in> set e. invalid n" by auto
    from Cons.IH [OF this, of "i + 1"] obtain i' j' k' where ijk: "i' < length rest"
      "j' < length (rest ! i')" "k' < length (rest ! i' ! j')"
      "validate_items (i + 1) rest = Some (InvalidNumber (i + 1 + i' + 1) (j' + 1) (k' + 1))"
      "invalid (rest ! i' ! j' ! k')" "\<forall>k'' < k'. \<not> invalid (rest ! i' ! j' ! k'')"
      "\<forall>j'' < j'. \<forall>n \<in> set (rest ! i' ! j''). \<not> invalid n"
      "\<forall>i'' < i'. \<forall>e \<in> set (rest ! i''). \<forall>n \<in> set e. \<not> invalid n"
      by blast
    have "\<forall>i'' < Suc i'. \<forall>e \<in> set ((item # rest) ! i''). \<forall>n \<in> set e. \<not> invalid n"
      using False ijk(8) by (auto simp: nth_Cons split: nat.splits)
    with none ijk show ?thesis
      by (intro exI [of _ "Suc i'"] exI [of _ j'] exI [of _ k']) simp
  qed
qed

text \<open>
  C7. For every hierarchy with at least one value that is \<open>\<le> 0\<close> or not a number,
  \<open>validate\<close> fails and reports the 1-based position (item, element, value) of the
  first such value in the order of the loops, and \<open>calculateCombinations\<close> stops there:
  it sets the message and nothing else, so the previous results stay.
\<close>

theorem validate_reports_first_invalid:
  assumes "\<exists>item \<in> set (items s). \<exists>e \<in> set item. \<exists>n \<in> set e. invalid n"
  shows "\<exists>i j k.
           invalid_at (items s) i j k
         \<and> (\<forall>i' j' k'. invalid_at (items s) i' j' k' \<longrightarrow> \<not> precedes (i', j', k') (i, j, k))
         \<and> validate (items s) = Some (InvalidNumber (i + 1) (j + 1) (k + 1))
         \<and> calculateCombinations s = s\<lparr>error := Some (InvalidNumber (i + 1) (j + 1) (k + 1))\<rparr>
         \<and> results (calculateCombinations s) = results s"
proof -
  from validate_items_first [OF assms, of 0] obtain i j k where ijk:
    "i < length (items s)" "j < length (items s ! i)" "k < length (items s ! i ! j)"
    "validate_items 0 (items s) = Some (InvalidNumber (0 + i + 1) (j + 1) (k + 1))"
    "invalid (items s ! i ! j ! k)"
    "\<forall>k'' < k. \<not> invalid (items s ! i ! j ! k'')"
    "\<forall>j'' < j. \<forall>n \<in> set (items s ! i ! j''). \<not> invalid n"
    "\<forall>i'' < i. \<forall>e \<in> set (items s ! i''). \<forall>n \<in> set e. \<not> invalid n"
    by blast
  have at: "invalid_at (items s) i j k"
    using ijk by (simp add: invalid_at_def)
  have first: "\<not> precedes (i', j', k') (i, j, k)" if "invalid_at (items s) i' j' k'" for i' j' k'
  proof
    assume "precedes (i', j', k') (i, j, k)"
    then consider "i' < i" | "i' = i" "j' < j" | "i' = i" "j' = j" "k' < k"
      by (auto simp: precedes_def)
    then show False
    proof cases
      case 1
      have "items s ! i' ! j' \<in> set (items s ! i')" "items s ! i' ! j' ! k' \<in> set (items s ! i' ! j')"
        using that by (simp_all add: invalid_at_def)
      with ijk(8) 1 that show False by (auto simp: invalid_at_def)
    next
      case 2
      have "items s ! i ! j' ! k' \<in> set (items s ! i ! j')"
        using that 2 by (simp add: invalid_at_def)
      with ijk(7) 2 that show False by (auto simp: invalid_at_def)
    next
      case 3
      with ijk(6) that show False by (auto simp: invalid_at_def)
    qed
  qed
  have val: "validate (items s) = Some (InvalidNumber (i + 1) (j + 1) (k + 1))"
    using ijk(4) by (simp add: validate_def)
  have calc: "calculateCombinations s = s\<lparr>error := Some (InvalidNumber (i + 1) (j + 1) (k + 1))\<rparr>"
    by (simp add: calculateCombinations_def val)
  have "results (calculateCombinations s) = results s"
    by (simp add: calc)
  with at first val calc show ?thesis by blast
qed

lemma validate_zero_items: "validate zero_items = Some (InvalidNumber 2 1 3)"
  by (simp add: validate_def zero_items_def)

theorem validate_reports_first_invalid_witness:
  "(\<exists>item \<in> set (items (initial_state zero_items)). \<exists>e \<in> set item. \<exists>n \<in> set e. invalid n)
   \<and> (\<exists>i j k.
           invalid_at (items (initial_state zero_items)) i j k
         \<and> (\<forall>i' j' k'. invalid_at (items (initial_state zero_items)) i' j' k'
               \<longrightarrow> \<not> precedes (i', j', k') (i, j, k))
         \<and> validate (items (initial_state zero_items)) =
             Some (InvalidNumber (i + 1) (j + 1) (k + 1))
         \<and> calculateCombinations (initial_state zero_items) =
             (initial_state zero_items)\<lparr>error := Some (InvalidNumber (i + 1) (j + 1) (k + 1))\<rparr>
         \<and> results (calculateCombinations (initial_state zero_items)) =
             results (initial_state zero_items))"
proof -
  have h: "\<exists>item \<in> set (items (initial_state zero_items)). \<exists>e \<in> set item. \<exists>n \<in> set e. invalid n"
    by (simp add: initial_state_def zero_items_def)
  show ?thesis
    by (rule conjI [OF h validate_reports_first_invalid [OF h]])
qed

section \<open>Round trip between generation and decomposition\<close>

lemma picks_sum_positive:
  "picks groups c \<Longrightarrow> groups \<noteq> [] \<Longrightarrow> \<forall>g \<in> set groups. \<forall>v \<in> set g. 0 < v
   \<Longrightarrow> 0 < sum_list c"
proof (induction groups arbitrary: c)
  case Nil
  then show ?case by simp
next
  case (Cons g gs)
  then obtain v c' where c: "c = v # c'" "v \<in> set g" "picks gs c'"
    by (auto simp: picks_Cons)
  have "0 \<le> sum_list c'"
    using picks_sum_nonneg [OF c(3)] Cons.prems(3) by fastforce
  moreover have "0 < v" using c(2) Cons.prems(3) by simp
  ultimately show ?case using c(1) by simp
qed

lemma calculateCartesianSum_values:
  assumes "positive groups" "safe_integers groups"
  shows "\<forall>s \<in> set (calculateCartesianSum groups).
           is_integer s \<and> 0 < s \<and> \<bar>s\<bar> \<le> total_span groups"
proof (cases "groups = []")
  case True
  then show ?thesis by simp
next
  case False
  have ints: "\<forall>g \<in> set groups. \<forall>v \<in> set g. is_integer v"
    using assms(2) by (simp add: safe_integers_iff)
  have pos: "\<forall>g \<in> set groups. \<forall>v \<in> set g. 0 < v"
    using assms(1) by (simp add: positive_iff)
  show ?thesis
  proof
    fix s assume "s \<in> set (calculateCartesianSum groups)"
    then obtain c where c: "picks groups c" "sum_list c = s"
      by (auto simp: set_calculateCartesianSum [OF False assms(2)] reachableSums_def)
    show "is_integer s \<and> 0 < s \<and> \<bar>s\<bar> \<le> total_span groups"
      using picks_sum_integer [OF c(1) ints] picks_sum_positive [OF c(1) False pos]
        picks_sum_bound [OF c(1)] c(2) by simp
  qed
qed

lemma total_span_concat: "total_span (concat xss) = sum_list (map total_span xss)"
  by (induction xss) (simp_all add: total_span_def)

lemma member_le_sum_list_real:
  fixes xs :: "real list"
  shows "x \<in> set xs \<Longrightarrow> \<forall>y \<in> set xs. 0 \<le> y \<Longrightarrow> x \<le> sum_list xs"
proof (induction xs)
  case Nil
  then show ?case by simp
next
  case (Cons y ys)
  have "0 \<le> sum_list ys" using Cons.prems(2) by (intro sum_list_nonneg) simp
  then show ?case using Cons by auto
qed

lemma safe_item:
  assumes "safe_hierarchy items'" "item \<in> set items'"
  shows "positive (map numbers item) \<and> safe_integers (map numbers item)
       \<and> total_span (map numbers item) \<le> total_span (all_elements items')"
proof -
  have valid: "validate items' = None" and safe: "safe_integers (all_elements items')"
    using assms(1) by (simp_all add: safe_hierarchy_def)
  have "\<forall>v \<in> set (numbers e). 0 < v" if "e \<in> set item" for e
    using valid assms(2) that by (intro numbers_positive) (simp add: validate_None)
  then have pos: "positive (map numbers item)"
    by (auto simp: positive_iff)
  have sub: "set (map numbers item) \<subseteq> set (all_elements items')"
    using assms(2) by (auto simp: all_elements_def)
  have "total_span (map numbers item) \<in> set (map (\<lambda>item. total_span (map numbers item)) items')"
    using assms(2) by auto
  then have "total_span (map numbers item) \<le>
      sum_list (map (\<lambda>item. total_span (map numbers item)) items')"
    by (rule member_le_sum_list_real) (auto simp: span_nonneg)
  also have "\<dots> = total_span (all_elements items')"
    by (simp add: all_elements_def total_span_concat comp_def)
  finally have le: "total_span (map numbers item) \<le> total_span (all_elements items')" .
  have "safe_integers (map numbers item)"
    using safe sub le by (auto simp: safe_integers_iff)
  with pos le show ?thesis by simp
qed

lemma itemResults_safe:
  assumes "safe_hierarchy items'"
  shows "positive (itemResults (computeResults items'))
       \<and> safe_integers (itemResults (computeResults items'))"
proof -
  let ?F = "\<lambda>item. calculateCartesianSum (map numbers item)"
  have groups: "itemResults (computeResults items') = map ?F items'"
    by (simp add: computeResults_def Let_def)
  have vals: "\<forall>s \<in> set (?F item). is_integer s \<and> 0 < s \<and> \<bar>s\<bar> \<le> total_span (map numbers item)"
    if "item \<in> set items'" for item
    using safe_item [OF assms that] by (intro calculateCartesianSum_values) simp_all
  have pos: "positive (map ?F items')"
    using vals by (auto simp: positive_iff)
  have ints: "\<forall>g \<in> set (map ?F items'). \<forall>v \<in> set g. is_integer v"
    using vals by auto
  have "maxabs (?F item) \<le> total_span (map numbers item)" if "item \<in> set items'" for item
    using vals [OF that] by (intro maxabs_le) (simp_all add: span_nonneg)
  then have "sum_list (map (\<lambda>item. maxabs (?F item)) items') \<le>
      sum_list (map (\<lambda>item. total_span (map numbers item)) items')"
    by (intro sum_list_mono) simp
  also have "\<dots> = total_span (all_elements items')"
    by (simp add: all_elements_def total_span_concat comp_def)
  also have "\<dots> \<le> 2 ^ 53"
    using assms by (simp add: safe_hierarchy_def safe_integers_iff)
  finally have "total_span (map ?F items') \<le> 2 ^ 53"
    by (simp add: total_span_def comp_def)
  with pos ints show ?thesis
    by (simp add: groups safe_integers_iff)
qed

lemma decomposable:
  assumes "positive groups" "safe_integers groups"
    and "s \<in> set (calculateCartesianSum groups)"
  shows "findItemCombinations s groups \<noteq> []"
proof -
  have ne: "groups \<noteq> []" using assms(3) by auto
  then obtain c where "picks groups c" "sum_list c = s"
    using assms(3) by (auto simp: set_calculateCartesianSum [OF _ assms(2)] reachableSums_def)
  then have "c \<in> set (findItemCombinations s groups)"
    by (simp add: set_findItemCombinations [OF assms(1,2)])
  then show ?thesis by auto
qed

lemma computeResults_big_items:
  "computeResults big_items =
     \<lparr>itemResults = [[9007199254740992], [1]], totalResult = [9007199254740992]\<rparr>"
  unfolding computeResults_def big_items_def Let_def by code_simp

lemma validate_big_items: "validate big_items = None"
  by (simp add: validate_def big_items_def)

text \<open>
  C3 as stated fails from \<open>2^53\<close> on: the hierarchy of two items with the single
  values \<open>2^53\<close> and 1 passes \<open>validate\<close>, its total results are \<open>[2^53]\<close>, and the
  search for \<open>2^53\<close> over the item results returns \<open>[2^53, 1]\<close>, which does not sum to
  \<open>2^53\<close>.
\<close>

theorem round_trip_wrong_sum:
  "validate big_items = None
   \<and> computeResults big_items =
       \<lparr>itemResults = [[9007199254740992], [1]], totalResult = [9007199254740992]\<rparr>
   \<and> findItemCombinations 9007199254740992 [[9007199254740992], [1]] = [[9007199254740992, 1]]
   \<and> sum_list [9007199254740992, 1 :: real] \<noteq> 9007199254740992"
proof -
  have "sum_list [9007199254740992, 1 :: real] \<noteq> 9007199254740992" by simp
  then show ?thesis
    using validate_big_items computeResults_big_items findItemCombinations_big by blast
qed

text \<open>
  C3, amended. Round trip: for every hierarchy of positive integers that passes
  \<open>validate\<close> and whose largest values, one per element, add up to at most \<open>2^53\<close>,
  with the results computed by \<open>calculateCombinations\<close>, for every \<open>s\<close> in
  \<open>totalResult\<close> the search \<open>findItemCombinations s itemResults\<close> is non-empty, and
  every decomposition it returns picks one value from each entry of \<open>itemResults\<close> and
  sums to \<open>s\<close>.
\<close>

theorem round_trip:
  assumes "safe_hierarchy items'"
    and "s \<in> set (totalResult (computeResults items'))"
  shows "findItemCombinations s (itemResults (computeResults items')) \<noteq> []
       \<and> (\<forall>c \<in> set (findItemCombinations s (itemResults (computeResults items'))).
             picks (itemResults (computeResults items')) c \<and> sum_list c = s)"
proof -
  let ?groups = "itemResults (computeResults items')"
  from itemResults_safe [OF assms(1)]
  have pos: "positive ?groups" and safe: "safe_integers ?groups" by simp_all
  have "s \<in> set (calculateCartesianSum ?groups)"
    using assms(2) by (simp add: computeResults_def Let_def)
  then have "findItemCombinations s ?groups \<noteq> []"
    using decomposable [OF pos safe] by blast
  moreover have "\<forall>c \<in> set (findItemCombinations s ?groups). picks ?groups c \<and> sum_list c = s"
    by (simp add: set_findItemCombinations [OF pos safe])
  ultimately show ?thesis by blast
qed

lemma computeResults_two_items:
  "computeResults two_items = \<lparr>itemResults = [[2, 1], [2, 1]], totalResult = [4, 3, 2]\<rparr>"
  unfolding computeResults_def two_items_def Let_def by code_simp

lemma validate_two_items: "validate two_items = None"
  by (simp add: validate_def two_items_def)

lemma safe_two_items: "safe_hierarchy two_items"
proof -
  have "safe_integers (all_elements two_items)"
    by (simp add: all_elements_def two_items_def safe_integers_def total_span_def maxabs_def
        is_integer_def)
  then show ?thesis
    using validate_two_items by (simp add: safe_hierarchy_def)
qed

theorem round_trip_witness:
  "safe_hierarchy two_items
   \<and> 3 \<in> set (totalResult (computeResults two_items))
   \<and> findItemCombinations 3 (itemResults (computeResults two_items)) \<noteq> []
   \<and> list_all (\<lambda>c. picks (itemResults (computeResults two_items)) c \<and> sum_list c = 3)
        (findItemCombinations 3 (itemResults (computeResults two_items)))"
proof -
  note h1 = safe_two_items
  have h2: "3 \<in> set (totalResult (computeResults two_items))"
    by (simp add: computeResults_two_items)
  from round_trip [OF h1 h2]
  have "findItemCombinations 3 (itemResults (computeResults two_items)) \<noteq> []
      \<and> list_all (\<lambda>c. picks (itemResults (computeResults two_items)) c \<and> sum_list c = 3)
          (findItemCombinations 3 (itemResults (computeResults two_items)))"
    unfolding list_all_iff .
  with h1 h2 show ?thesis by blast
qed

section \<open>Properties of the Balance Selector\<close>

lemma insort_key_pairs:
  assumes "\<forall>y \<in> set ys. snd y = f (fst y)"
  shows "map fst (insort_key snd (x, f x) ys) = insort_key f x (map fst ys)"
  using assms by (induction ys) auto

lemma sort_key_pairs:
  "map fst (sort_key snd (map (\<lambda>c. (c, f c)) xs)) = sort_key f xs"
proof (induction xs)
  case Nil
  show ?case by simp
next
  case (Cons x xs)
  have "\<forall>y \<in> set (sort_key snd (map (\<lambda>c. (c, f c)) xs)). snd y = f (fst y)"
    by auto
  then show ?case
    using Cons.IH by (simp add: insort_key_pairs)
qed

lemma sort_key_ranked: "rankedBy key combinations (sort_key key combinations)"
  by (simp add: rankedBy_def sort_key_stable)

lemma topCount_topFraction:
  assumes "0 < n" "n < 2 ^ 32"
  shows "max 1 (nat \<lceil>mul_double (real n) (fl (3 / 10))\<rceil>) = topFraction n"
  by (simp add: topFraction_def topCount_exact [OF assms])

lemma selectBalancedCombination_result:
  assumes "combinations \<noteq> []" "length combinations < 2 ^ 32"
    and "0 \<le> rnd" "rnd \<le> 1 - 1 / 2 ^ 53"
  shows "\<exists>c. selectBalancedCombination rnd combinations = Inr c
           \<and> c \<in> set (take (topFraction (length combinations))
                          (sort_key calculateStdDev combinations))
           \<and> (length combinations = 1 \<longrightarrow> c = combinations ! 0)"
proof (cases "length combinations = 1")
  case True
  then obtain x where x: "combinations = [x]"
    by (cases combinations) auto
  show ?thesis
    by (simp add: x selectBalancedCombination_def topFraction_def)
next
  case False
  moreover have "length combinations \<noteq> 0"
    using assms(1) by simp
  ultimately have len: "2 \<le> length combinations"
    by arith
  define withStdDev where "withStdDev = map (\<lambda>combo. (combo, calculateStdDev combo)) combinations"
  define sorted' where "sorted' = sort_key snd withStdDev"
  define top where
    "top = take (max 1 (nat \<lceil>mul_double (real (length sorted')) (fl (3 / 10))\<rceil>)) sorted'"
  define randomIndex where "randomIndex = \<lfloor>mul_double rnd (real (length top))\<rfloor>"
  have len_sorted: "length sorted' = length combinations"
    by (simp add: sorted'_def withStdDev_def)
  have count: "max 1 (nat \<lceil>mul_double (real (length sorted')) (fl (3 / 10))\<rceil>) =
      topFraction (length sorted')"
    using len assms(1,2) by (intro topCount_topFraction) (simp_all add: len_sorted)
  have top_eq: "top = take (topFraction (length sorted')) sorted'"
    by (simp only: top_def count)
  have "0 < topFraction (length sorted')"
    by (simp add: topFraction_def)
  then have top_pos: "0 < length top"
    using len len_sorted assms(1) by (simp add: top_eq)
  have "length top \<le> length combinations"
    by (simp add: top_eq len_sorted)
  then have "length top < 2 ^ 32" using assms(2) by simp
  then have "length top \<le> 2 ^ 53" by simp
  from randomIndex_in_range [OF assms(3,4) top_pos this]
  have range: "0 \<le> randomIndex" "randomIndex < int (length top)"
    by (simp_all add: randomIndex_def)
  have n0: "\<not> length combinations = 0" and n1: "\<not> length combinations = 1"
    using len assms(1) by simp_all
  have "selectBalancedCombination rnd combinations =
        (if 0 \<le> randomIndex \<and> randomIndex < int (length top)
         then Inr (fst (top ! nat randomIndex)) else Inl TypeError)"
    unfolding selectBalancedCombination_def Let_def randomIndex_def top_def sorted'_def
      withStdDev_def
    by (simp only: n0 n1 if_False)
  then have sel: "selectBalancedCombination rnd combinations = Inr (fst (top ! nat randomIndex))"
    using range by simp
  have idx: "nat randomIndex < length top"
    using range by simp
  have "map fst top = take (topFraction (length combinations)) (sort_key calculateStdDev combinations)"
    by (simp add: top_eq len_sorted take_map [symmetric] sorted'_def withStdDev_def
        sort_key_pairs)
  moreover have "fst (top ! nat randomIndex) \<in> set (map fst top)"
    using idx by (metis length_map nth_map nth_mem)
  ultimately have "fst (top ! nat randomIndex) \<in>
      set (take (topFraction (length combinations)) (sort_key calculateStdDev combinations))"
    by simp
  with sel False show ?thesis by simp
qed

lemma selectBalancedCombination_member:
  assumes "combinations \<noteq> []" "length combinations < 2 ^ 32"
    and "0 \<le> rnd" "rnd \<le> 1 - 1 / 2 ^ 53"
  shows "\<exists>c. selectBalancedCombination rnd combinations = Inr c \<and> c \<in> set combinations"
proof -
  from selectBalancedCombination_result [OF assms] obtain c where
    c: "selectBalancedCombination rnd combinations = Inr c"
    "c \<in> set (take (topFraction (length combinations)) (sort_key calculateStdDev combinations))"
    by blast
  from c(2) have "c \<in> set (sort_key calculateStdDev combinations)"
    by (rule in_set_takeD)
  with c(1) show ?thesis by simp
qed

section \<open>The standard deviation in double arithmetic\<close>

lemma calculateStdDev_roundedVariance:
  "arr \<noteq> [] \<Longrightarrow> calculateStdDev arr = sqrt_double (roundedVariance arr)"
  by (simp add: calculateStdDev_def roundedVariance_def Let_def)

lemma mean_169:
  "div_double (foldl (\<lambda>a b. add_double a b) 0 [1, 6, 9]) 3 = 6004799503160661 / 1125899906842624"
  "div_double (foldl (\<lambda>a b. add_double a b) 0 [1, 9, 6]) 3 = 6004799503160661 / 1125899906842624"
  by code_simp+

lemma squaredDiffs_169:
  "mul_double (sub_double 1 (6004799503160661 / 1125899906842624))
     (sub_double 1 (6004799503160661 / 1125899906842624)) = 5285474562677873 / 281474976710656"
  "mul_double (sub_double 6 (6004799503160661 / 1125899906842624))
     (sub_double 6 (6004799503160661 / 1125899906842624)) = 2001599834386889 / 4503599627370496"
  "mul_double (sub_double 9 (6004799503160661 / 1125899906842624))
     (sub_double 9 (6004799503160661 / 1125899906842624)) = 3784274686887709 / 281474976710656"
  by code_simp+

lemma variance_169:
  "div_double (foldl (\<lambda>a b. add_double a b) 0
     [5285474562677873 / 281474976710656, 2001599834386889 / 4503599627370496,
      3784274686887709 / 281474976710656]) 3 = 6129899492809843 / 562949953421312"
  "div_double (foldl (\<lambda>a b. add_double a b) 0
     [5285474562677873 / 281474976710656, 3784274686887709 / 281474976710656,
      2001599834386889 / 4503599627370496]) 3 = 6129899492809841 / 562949953421312"
  by code_simp+

lemma length3: "real (length [a, b, c :: real]) = 3"
  by simp

lemma roundedVariance_169:
  "roundedVariance [1, 6, 9] = 6129899492809843 / 562949953421312"
  "roundedVariance [1, 9, 6] = 6129899492809841 / 562949953421312"
  unfolding roundedVariance_def Let_def length3 mean_169 list.map squaredDiffs_169
  by (rule variance_169)+

lemma sqrt_double_eqI:
  assumes "4 \<le> v" "v < 16"
    and "((of_int k - 1 / 2) / 2 ^ 51) ^ 2 < v" "v < ((of_int k + 1 / 2) / 2 ^ 51) ^ 2"
    and "1 \<le> k"
  shows "sqrt_double v = of_int k / 2 ^ 51"
proof -
  have v0: "0 \<le> v" using assms(1) by simp
  have "sqrt 4 \<le> sqrt v" using assms(1) by (simp only: real_sqrt_le_iff)
  then have lo: "2 \<le> sqrt v" by simp
  have "sqrt v < sqrt 16" using assms(2) by (simp only: real_sqrt_less_iff)
  then have hi: "sqrt v < 4" by simp
  have b1: "pow2 1 \<le> \<bar>sqrt v\<bar>" using lo by (simp add: pow2_def)
  have b2: "\<bar>sqrt v\<bar> < pow2 (1 + 1)" using hi lo by (simp add: pow2_def)
  have l: "(of_int k - 1 / 2) / 2 ^ 51 < sqrt v"
    using assms(3) by (rule real_less_rsqrt)
  have kpos: "0 \<le> (real_of_int k + 1 / 2) / 2 ^ 51" using assms(5) by simp
  have u: "sqrt v < (of_int k + 1 / 2) / 2 ^ 51"
    using kpos assms(4) by (intro real_less_lsqrt) simp_all
  have p: "pow2 (1 - 52) = 1 / 2 ^ 51" by (simp add: pow2_def)
  have "sqrt v / pow2 (1 - 52) = sqrt v * 2 ^ 51" unfolding p by simp
  moreover have "\<bar>sqrt v * 2 ^ 51 - of_int k\<bar> < 1 / 2"
    using l u by (simp add: abs_if field_simps)
  ultimately have "\<bar>sqrt v / pow2 (1 - 52) - of_int k\<bar> < 1 / 2" by simp
  from fl_eqI [OF b1 b2 this] show ?thesis
    unfolding sqrt_double_def p by simp
qed

lemma sqrt_169:
  "sqrt_double (6129899492809843 / 562949953421312) = 7430560284613402 / 2 ^ 51"
  using sqrt_double_eqI [of "6129899492809843 / 562949953421312" 7430560284613402]
  by (simp add: power_divide)

lemma sqrt_196:
  "sqrt_double (6129899492809841 / 562949953421312) = 7430560284613401 / 2 ^ 51"
  using sqrt_double_eqI [of "6129899492809841 / 562949953421312" 7430560284613401]
  by (simp add: power_divide)

lemma calculateStdDev_169:
  "calculateStdDev [1, 6, 9] = 7430560284613402 / 2 ^ 51"
  "calculateStdDev [1, 9, 6] = 7430560284613401 / 2 ^ 51"
  by (simp_all only: calculateStdDev_roundedVariance roundedVariance_169 sqrt_169 sqrt_196
      list.distinct not_False_eq_True)

lemma fl_one: "fl 1 = 1"
  using fl_of_int [of 1] by simp

lemma fl_half: "fl (1 / 2) = 1 / 2"
  by code_simp

lemma roundedVariance_small:
  "roundedVariance [1, 3] = 1"
  "roundedVariance [2, 2] = 0"
  unfolding roundedVariance_def Let_def by code_simp+

lemma calculateStdDev_small:
  "calculateStdDev [1, 3] = 1"
  "calculateStdDev [2, 2] = 0"
  by (simp_all add: calculateStdDev_roundedVariance roundedVariance_small sqrt_double_def fl_one)

lemma topCount_two: "\<lceil>mul_double 2 (fl (3 / 10))\<rceil> = 1"
  using topCount_exact [of 2] by simp

lemma mul_double_draws: "mul_double 0 1 = 0" "mul_double (1 / 2) 1 = 1 / 2"
  by (simp_all add: mul_double_def fl_half)

lemma selectBalancedCombination_169:
  "selectBalancedCombination 0 [[1, 6, 9], [1, 9, 6]] = Inr [1, 9, 6]"
  by (simp add: selectBalancedCombination_def Let_def calculateStdDev_169 topCount_two
      mul_double_draws)

lemma selectBalancedCombination_small:
  "selectBalancedCombination (1 / 2) [[1, 3], [2, 2]] = Inr [2, 2]"
  by (simp add: selectBalancedCombination_def Let_def calculateStdDev_small topCount_two
      mul_double_draws)

lemma populationStdDev_169: "populationStdDev [1, 6, 9] = populationStdDev [1, 9, 6]"
  by (simp add: populationStdDev_def)




section \<open>Score assignment\<close>

lemma calculateCombinations_two_items:
  "calculateCombinations (initial_state two_items) =
     \<lparr>items = two_items,
      results = Some \<lparr>itemResults = [[2, 1], [2, 1]], totalResult = [4, 3, 2]\<rparr>,
      error = None, students = [], nextStudentId = 1, storedItems = Some two_items\<rparr>"
  by (simp add: calculateCombinations_def validate_two_items computeResults_two_items
      initial_state_def)

lemma roundedVariance_pair:
  "roundedVariance [2, 1] = 1 / 4"
  "roundedVariance [1, 2] = 1 / 4"
  unfolding roundedVariance_def Let_def by code_simp+

lemma calculateStdDev_pair: "calculateStdDev [2, 1] = calculateStdDev [1, 2]"
  by (simp add: calculateStdDev_roundedVariance roundedVariance_pair)

lemma findElementCombinations_two_items:
  "findElementCombinations 2 [[1, 2]] = [[2]]"
  "findElementCombinations 1 [[1, 2]] = [[1]]"
  by (simp_all add: findElementCombinations_search add_double_exact is_integer_def)

lemma selectBalancedCombination_pair:
  "selectBalancedCombination 0 [[2, 1], [1, 2]] = Inr [2, 1]"
  by (simp add: selectBalancedCombination_def Let_def calculateStdDev_pair topCount_two
      mul_double_draws)

lemma elementLoop_two_items:
  "elementLoop (\<lambda>_. 0) two_items [2, 1] 0 [] = Inr [[2], [1]]"
  by (simp add: elementLoop.simps two_items_def findElementCombinations_two_items
      selectBalancedCombination_def)

lemma assigned_state_reachable:
  "updateStudentTotalScore (\<lambda>_. 0) 1 (Some 3)
     (addStudent (calculateCombinations (initial_state two_items))) = Inr assigned_state"
  by (simp add: calculateCombinations_two_items addStudent_def updateStudentTotalScore_def
      findItemCombinations_scenario selectBalancedCombination_pair elementLoop_two_items
      assigned_state_def)

text \<open>
  C6. When the item-level search over \<open>results.itemResults\<close> finds nothing for the
  score entered, \<open>updateStudentTotalScore\<close> changes nothing: it returns the state it
  was given (every student keeps the total score, item scores and element scores) and
  throws no error.
\<close>

theorem updateStudentTotalScore_no_decomposition:
  assumes "results s = Some results'"
    and "findItemCombinations score (itemResults results') = []"
  shows "updateStudentTotalScore rnd id' (Some score) s = Inr s"
  using assms by (simp add: updateStudentTotalScore_def)

theorem updateStudentTotalScore_no_decomposition_witness:
  "results assigned_state = Some \<lparr>itemResults = [[2, 1], [2, 1]], totalResult = [4, 3, 2]\<rparr>
   \<and> findItemCombinations 7
         (itemResults \<lparr>itemResults = [[2, 1], [2, 1]], totalResult = [4, 3, 2]\<rparr>) = []
   \<and> updateStudentTotalScore (\<lambda>_. 0) 1 (Some 7) assigned_state = Inr assigned_state"
proof -
  have h1: "results assigned_state =
      Some \<lparr>itemResults = [[2, 1], [2, 1]], totalResult = [4, 3, 2]\<rparr>"
    by (simp add: assigned_state_def)
  have h2: "findItemCombinations 7
      (itemResults \<lparr>itemResults = [[2, 1], [2, 1]], totalResult = [4, 3, 2]\<rparr>) = []"
    by (simp add: findItemCombinations_search add_double_exact is_integer_def)
  show ?thesis
    by (rule conjI [OF h1 conjI [OF h2 updateStudentTotalScore_no_decomposition [OF h1 h2]]])
qed

section \<open>Structural edits\<close>

text \<open>
  C8 as stated fails: a structural edit does not clear the item scores and element
  scores of the students. After \<open>addItem\<close> on \<open>assigned_state\<close> the student still has
  the item scores \<open>[2, 1]\<close> and the element scores \<open>[[2], [1]]\<close>.
\<close>

theorem addItem_keeps_assigned_scores:
  "apply_edit AddItem assigned_state = Inr (addItem assigned_state)
   \<and> map itemScores (students (addItem assigned_state)) = [[2, 1]]
   \<and> map elementScores (students (addItem assigned_state)) = [[[2], [1]]]"
  by (simp add: addItem_def clearResults_def assigned_state_def)

text \<open>
  C8, amended. No structural edit touches the student records: every student keeps the
  total score, the item scores and the element scores. An edit that is carried out sets
  the results to unset and clears the message; a removal that is refused, because only
  one item, element or value is left, changes nothing.
\<close>

theorem structural_edit_effect:
  assumes "apply_edit e s = Inr s'"
  shows "students s' = students s
       \<and> (if refused e s then s' = s else results s' = None \<and> error s' = None)"
proof (cases e)
  case AddItem
  with assms show ?thesis by (auto simp: addItem_def clearResults_def)
next
  case (RemoveItem i)
  with assms show ?thesis by (auto simp: removeItem_def clearResults_def)
next
  case (AddEvaluationElement i)
  with assms show ?thesis
    by (auto simp: addEvaluationElement_def clearResults_def split: if_splits)
next
  case (RemoveEvaluationElement i j)
  with assms show ?thesis
    by (auto simp: removeEvaluationElement_def clearResults_def split: if_splits)
next
  case (AddNumber i j)
  with assms show ?thesis
    by (auto simp: addNumber_def clearResults_def Let_def split: if_splits)
next
  case (RemoveNumber i j k)
  with assms show ?thesis
    by (auto simp: removeNumber_def clearResults_def split: if_splits)
qed

theorem structural_edit_effect_witness:
  "apply_edit AddItem assigned_state = Inr (addItem assigned_state)
   \<and> students (addItem assigned_state) = students assigned_state
   \<and> (if refused AddItem assigned_state then addItem assigned_state = assigned_state
       else results (addItem assigned_state) = None \<and> error (addItem assigned_state) = None)"
proof -
  have h: "apply_edit AddItem assigned_state = Inr (addItem assigned_state)" by simp
  show ?thesis
    by (rule conjI [OF h structural_edit_effect [OF h]])
qed

end
